theory Spec2Isabelle
  imports Complex_Main "HOL-Library.Multiset" "HOL-Library.Sublist" "HOL-Library.Product_Lexorder"
begin

section \<open>Numbers\<close>

text \<open>
  A JavaScript number is an IEEE 754 double. The model keeps the three special values that
  decide control flow in the code (NaN and the two infinities) and takes every finite value
  as an exact real: rounding, overflow of finite arithmetic and the sign of zero are left out.
  The operators below follow the IEEE rules for the special values. A zero divisor is read
  as positive zero, which is the only zero divisor the modelled code can produce (the square
  root of a sum of squares); every other division in the code has a divisor that is checked
  or is a positive constant.
\<close>

datatype number = NaN | NegInf | Fin real | PosInf

fun js_neg :: "number \<Rightarrow> number" where
  "js_neg NaN = NaN"
| "js_neg NegInf = PosInf"
| "js_neg (Fin a) = Fin (- a)"
| "js_neg PosInf = NegInf"

fun js_add :: "number \<Rightarrow> number \<Rightarrow> number" where
  "js_add NaN b = NaN"
| "js_add a NaN = NaN"
| "js_add (Fin a) (Fin b) = Fin (a + b)"
| "js_add (Fin a) b = b"
| "js_add a (Fin b) = a"
| "js_add PosInf PosInf = PosInf"
| "js_add NegInf NegInf = NegInf"
| "js_add PosInf NegInf = NaN"
| "js_add NegInf PosInf = NaN"

definition js_sub :: "number \<Rightarrow> number \<Rightarrow> number" where
  "js_sub a b = js_add a (js_neg b)"

fun js_mul :: "number \<Rightarrow> number \<Rightarrow> number" where
  "js_mul NaN b = NaN"
| "js_mul a NaN = NaN"
| "js_mul (Fin a) (Fin b) = Fin (a * b)"
| "js_mul (Fin a) b = (if a = 0 then NaN else if 0 < a then b else js_neg b)"
| "js_mul a (Fin b) = (if b = 0 then NaN else if 0 < b then a else js_neg a)"
| "js_mul PosInf b = b"
| "js_mul NegInf b = js_neg b"

fun js_div :: "number \<Rightarrow> number \<Rightarrow> number" where
  "js_div NaN b = NaN"
| "js_div a NaN = NaN"
| "js_div (Fin a) (Fin b) =
     (if b = 0 then (if a = 0 then NaN else if 0 < a then PosInf else NegInf)
      else Fin (a / b))"
| "js_div (Fin a) b = Fin 0"
| "js_div a (Fin b) = (if 0 \<le> b then a else js_neg a)"
| "js_div a b = NaN"

fun js_abs :: "number \<Rightarrow> number" where
  "js_abs NaN = NaN"
| "js_abs (Fin a) = Fin \<bar>a\<bar>"
| "js_abs a = PosInf"

fun js_sqrt :: "number \<Rightarrow> number" where
  "js_sqrt (Fin a) = (if a < 0 then NaN else Fin (sqrt a))"
| "js_sqrt PosInf = PosInf"
| "js_sqrt a = NaN"

text \<open>The exponentiation \<^verbatim>\<open>a ** 2\<close>.\<close>

fun js_pow2 :: "number \<Rightarrow> number" where
  "js_pow2 NaN = NaN"
| "js_pow2 (Fin a) = Fin (a ^ 2)"
| "js_pow2 a = PosInf"

text \<open>The relational operators: every comparison with NaN is false.\<close>

fun js_lt :: "number \<Rightarrow> number \<Rightarrow> bool" where
  "js_lt NaN b = False"
| "js_lt a NaN = False"
| "js_lt (Fin a) (Fin b) = (a < b)"
| "js_lt a NegInf = False"
| "js_lt PosInf b = False"
| "js_lt a b = True"

definition js_gt :: "number \<Rightarrow> number \<Rightarrow> bool" where
  "js_gt a b = js_lt b a"

fun js_le :: "number \<Rightarrow> number \<Rightarrow> bool" where
  "js_le NaN b = False"
| "js_le a NaN = False"
| "js_le a b = (\<not> js_lt b a)"

definition js_ge :: "number \<Rightarrow> number \<Rightarrow> bool" where
  "js_ge a b = js_le b a"

text \<open>Strict equality \<^verbatim>\<open>===\<close> on numbers: NaN is not equal to itself.\<close>

definition js_eq :: "number \<Rightarrow> number \<Rightarrow> bool" where
  "js_eq a b = (a \<noteq> NaN \<and> a = b)"

section \<open>Arrays\<close>

text \<open>
  \<^verbatim>\<open>Array.prototype.slice(start, end)\<close>: a negative index counts from the end of the
  array, and both indices are clamped to the array.
\<close>

definition relativeIndex :: "nat \<Rightarrow> int \<Rightarrow> nat" where
  "relativeIndex len i = (if i < 0 then nat (max (int len + i) 0) else min (nat i) len)"

definition slice :: "'a list \<Rightarrow> int \<Rightarrow> int \<Rightarrow> 'a list" where
  "slice xs start end =
     (let k = relativeIndex (length xs) start;
          final = relativeIndex (length xs) end
      in take (final - k) (drop k xs))"

text \<open>\<^verbatim>\<open>slice(start)\<close>, with the end left out, runs to the end of the array.\<close>

definition sliceFrom :: "'a list \<Rightarrow> int \<Rightarrow> 'a list" where
  "sliceFrom xs start = drop (relativeIndex (length xs) start) xs"

section \<open>Path simplification (Douglas-Peucker)\<close>

text \<open>
  A point is any object with numeric fields \<open>x\<close> and \<open>y\<close>; the extensible record keeps
  whatever other fields the caller's point type carries.
\<close>

record Point2 =
  x :: number
  y :: number

definition perpendicularDistance ::
  "'a Point2_scheme \<Rightarrow> 'b Point2_scheme \<Rightarrow> 'c Point2_scheme \<Rightarrow> number" where
  "perpendicularDistance point lineStart lineEnd =
     (let x0 = Point2.x point;
          y0 = Point2.y point;
          x1 = Point2.x lineStart;
          y1 = Point2.y lineStart;
          x2 = Point2.x lineEnd;
          y2 = Point2.y lineEnd;
          num = js_abs (js_sub (js_add (js_sub (js_mul (js_sub y2 y1) x0)
                                               (js_mul (js_sub x2 x1) y0))
                                       (js_mul x2 y1))
                               (js_mul y2 x1));
          den = js_sqrt (js_add (js_pow2 (js_sub y2 y1)) (js_pow2 (js_sub x2 x1)))
      in js_div num den)"

text \<open>
  The scan of \<open>findFurthestPoint\<close>: the loop variable \<open>i\<close> and the two locals
  \<open>maxDist\<close> and \<open>index\<close> (\<open>-1\<close> while no point has been taken). The loop reads
  \<open>path[0]\<close> and \<open>path[length - 1]\<close> only in its body, where \<open>1 \<le> i < length - 1\<close>.
\<close>

function findFurthestLoop ::
  "'a Point2_scheme list \<Rightarrow> nat \<Rightarrow> number \<Rightarrow> int \<Rightarrow> number \<times> int" where
  "findFurthestLoop path i maxDist index =
     (if i < length path - 1 then
        (let dist = perpendicularDistance (path ! i) (path ! 0) (path ! (length path - 1))
         in if js_gt dist maxDist then findFurthestLoop path (i + 1) dist (int i)
            else findFurthestLoop path (i + 1) maxDist index)
      else (maxDist, index))"
  by pat_completeness auto
termination
  by (relation "measure (\<lambda>(path, i, maxDist, index). length path - 1 - i)") auto

definition findFurthestPoint :: "'a Point2_scheme list \<Rightarrow> number \<Rightarrow> int" where
  "findFurthestPoint path epsilon =
     (case findFurthestLoop path 1 (Fin (- 1)) (- 1) of
        (maxDist, index) \<Rightarrow> if js_gt maxDist epsilon then index else - 1)"

declare findFurthestLoop.simps [simp del]

lemma findFurthestLoop_stop:
  "\<not> i < length path - 1 \<Longrightarrow> findFurthestLoop path i m idx = (m, idx)"
  by (subst findFurthestLoop.simps) simp

lemma findFurthestLoop_step:
  "i < length path - 1 \<Longrightarrow>
   findFurthestLoop path i m idx =
     (if js_gt (perpendicularDistance (path ! i) (path ! 0) (path ! (length path - 1))) m
      then findFurthestLoop path (i + 1)
             (perpendicularDistance (path ! i) (path ! 0) (path ! (length path - 1))) (int i)
      else findFurthestLoop path (i + 1) m idx)"
  by (subst findFurthestLoop.simps) (simp add: Let_def)

lemma findFurthestLoop_range:
  "findFurthestLoop path i m idx = (m', idx') \<Longrightarrow> 1 \<le> i \<Longrightarrow>
   idx = - 1 \<or> (1 \<le> idx \<and> idx < int (length path) - 1) \<Longrightarrow>
   idx' = - 1 \<or> (1 \<le> idx' \<and> idx' < int (length path) - 1)"
proof (induction path i m idx rule: findFurthestLoop.induct)
  case (1 path i maxDist index)
  show ?case
  proof (cases "i < length path - 1")
    case False
    with "1.prems" show ?thesis by (simp add: findFurthestLoop_stop)
  next
    case True
    let ?d = "perpendicularDistance (path ! i) (path ! 0) (path ! (length path - 1))"
    from True "1.prems"(2) have i: "1 \<le> int i \<and> int i < int (length path) - 1"
      by linarith
    show ?thesis
    proof (cases "js_gt ?d maxDist")
      case gt: True
      from True gt "1.prems"(1)
      have "findFurthestLoop path (i + 1) ?d (int i) = (m', idx')"
        by (simp add: findFurthestLoop_step)
      then show ?thesis
        using "1.IH"(1) [OF True refl gt] i by simp
    next
      case ngt: False
      from True ngt "1.prems"(1)
      have "findFurthestLoop path (i + 1) maxDist index = (m', idx')"
        by (simp add: findFurthestLoop_step)
      then show ?thesis
        using "1.IH"(2) [OF True refl ngt] "1.prems"(3) by simp
    qed
  qed
qed

lemma findFurthestPoint_range:
  "findFurthestPoint path epsilon = - 1 \<or>
   (1 \<le> findFurthestPoint path epsilon \<and> findFurthestPoint path epsilon < int (length path) - 1)"
proof -
  obtain m idx where r: "findFurthestLoop path 1 (Fin (- 1)) (- 1) = (m, idx)"
    by (cases "findFurthestLoop path 1 (Fin (- 1)) (- 1)")
  from findFurthestLoop_range [OF r] have "idx = - 1 \<or> (1 \<le> idx \<and> idx < int (length path) - 1)"
    by simp
  with r show ?thesis by (auto simp: findFurthestPoint_def)
qed

lemma length_slice_prefix:
  "1 \<le> k \<Longrightarrow> k < int (length xs) - 1 \<Longrightarrow> length (slice xs 0 (k + 1)) = nat k + 1"
  by (auto simp: slice_def relativeIndex_def Let_def)

lemma length_sliceFrom:
  "1 \<le> k \<Longrightarrow> k < int (length xs) - 1 \<Longrightarrow> length (sliceFrom xs k) = length xs - nat k"
  by (auto simp: sliceFrom_def relativeIndex_def)

function douglasPeucker :: "'a Point2_scheme list \<Rightarrow> number \<Rightarrow> 'a Point2_scheme list" where
  "douglasPeucker path epsilon =
     (if length path < 3 then path
      else
        (let index = findFurthestPoint path epsilon
         in if index = - 1 then [path ! 0, path ! (length path - 1)]
            else
              (let left = douglasPeucker (slice path 0 (index + 1)) epsilon;
                   right = douglasPeucker (sliceFrom path index) epsilon
               in slice left 0 (- 1) @ right)))"
  by pat_completeness auto
termination
proof (relation "measure (\<lambda>(path, epsilon). length path)", goal_cases)
  case 1
  show ?case by simp
next
  case (2 path epsilon index)
  with findFurthestPoint_range [of path epsilon]
  have "1 \<le> index" "index < int (length path) - 1" by auto
  then show ?case by (simp add: length_slice_prefix)
next
  case (3 path epsilon index left)
  with findFurthestPoint_range [of path epsilon]
  have "1 \<le> index" "index < int (length path) - 1" by auto
  then show ?case by (simp add: length_sliceFrom)
qed

declare douglasPeucker.simps [simp del]

section \<open>Scalar utilities\<close>

text \<open>
  The remainder operator \<^verbatim>\<open>%\<close> truncates the quotient towards zero, so the result has the
  sign of the dividend. \<^verbatim>\<open>Math.round\<close> rounds to the nearest integer, ties towards
  positive infinity.
\<close>

definition js_trunc :: "real \<Rightarrow> int" where
  "js_trunc r = (if 0 \<le> r then \<lfloor>r\<rfloor> else \<lceil>r\<rceil>)"

fun js_mod :: "number \<Rightarrow> number \<Rightarrow> number" where
  "js_mod NaN b = NaN"
| "js_mod a NaN = NaN"
| "js_mod (Fin a) (Fin b) = (if b = 0 then NaN else Fin (a - b * of_int (js_trunc (a / b))))"
| "js_mod (Fin a) b = Fin a"
| "js_mod a b = NaN"

fun Math_round :: "number \<Rightarrow> number" where
  "Math_round (Fin a) = Fin (of_int \<lfloor>a + 1 / 2\<rfloor>)"
| "Math_round a = a"

definition Math_PI :: number where
  "Math_PI = Fin pi"

text \<open>
  Modelled from the spec: the constants \<open>DEG_TO_RAD\<close> and \<open>TWO_PI\<close> are imported from the
  package \<open>@lob-sdk/constants\<close>, whose source is not among the files; they are taken at the
  values their names and the range \<open>[0, 2\<pi>)\<close> of the spec give them.
\<close>

definition DEG_TO_RAD :: number where
  "DEG_TO_RAD = Fin (pi / 180)"

definition TWO_PI :: number where
  "TWO_PI = Fin (2 * pi)"

definition radiansToDegreesNormalized :: "number \<Rightarrow> number" where
  "radiansToDegreesNormalized radians =
     (let degrees = js_mul radians (js_div (Fin 180) Math_PI);
          degrees = js_mod degrees (Fin 360);
          degrees = (if js_lt degrees (Fin 0) then js_add degrees (Fin 360) else degrees)
      in Math_round degrees)"

definition degreesToRadiansNormalized :: "number \<Rightarrow> number" where
  "degreesToRadiansNormalized degrees =
     (let radians = js_mul degrees DEG_TO_RAD;
          radians = js_mod radians TWO_PI;
          radians = (if js_lt radians (Fin 0) then js_add radians TWO_PI else radians)
      in radians)"

text \<open>
  \<^verbatim>\<open>Array.prototype.sort(comparefn)\<close> is a built-in of the language: its code is the
  engine's, and it is a parameter \<open>arraySort\<close> of the model of \<open>median\<close>. What is known of
  it is \<open>conformingSort\<close>. The call rearranges the entries, here numbers, so the array
  after the call is a permutation of the array before it. The comparator's result is read
  through \<open>SortCompare\<close>, where a NaN result counts as \<open>0\<close>; when the comparator read so
  is a consistent ordering of the entries, the language fixes the order: no entry stands
  after one that it puts behind it. With any other comparator the order is left to the
  engine, and differs from one engine to the next.
\<close>

definition SortCompare :: "(number \<Rightarrow> number \<Rightarrow> number) \<Rightarrow> number \<Rightarrow> number \<Rightarrow> number" where
  "SortCompare comparefn a b = (let v = comparefn a b in if v = NaN then Fin 0 else v)"

definition consistentComparator :: "(number \<Rightarrow> number \<Rightarrow> number) \<Rightarrow> number set \<Rightarrow> bool" where
  "consistentComparator comparefn S \<longleftrightarrow>
     (\<forall>a\<in>S. \<forall>b\<in>S.
        js_gt (SortCompare comparefn a b) (Fin 0) \<longleftrightarrow> js_lt (SortCompare comparefn b a) (Fin 0)) \<and>
     (\<forall>a\<in>S. \<forall>b\<in>S. \<forall>c\<in>S.
        \<not> js_gt (SortCompare comparefn a b) (Fin 0) \<and> \<not> js_gt (SortCompare comparefn b c) (Fin 0) \<longrightarrow>
        \<not> js_gt (SortCompare comparefn a c) (Fin 0))"

definition conformingSort ::
  "((number \<Rightarrow> number \<Rightarrow> number) \<Rightarrow> number list \<Rightarrow> number list) \<Rightarrow> bool" where
  "conformingSort arraySort \<longleftrightarrow>
     (\<forall>comparefn xs.
        mset (arraySort comparefn xs) = mset xs \<and>
        (consistentComparator comparefn (set xs) \<longrightarrow>
           sorted_wrt (\<lambda>a b. \<not> js_gt (SortCompare comparefn a b) (Fin 0))
             (arraySort comparefn xs)))"

text \<open>
  One sort that conforms, the stable insertion sort; it serves to evaluate \<open>median\<close> on
  examples.
\<close>

fun insertSorted :: "(number \<Rightarrow> number \<Rightarrow> number) \<Rightarrow> number \<Rightarrow> number list \<Rightarrow> number list" where
  "insertSorted comparefn a [] = [a]"
| "insertSorted comparefn a (b # bs) =
     (if js_gt (SortCompare comparefn a b) (Fin 0) then b # insertSorted comparefn a bs
      else a # b # bs)"

definition insertionSort :: "(number \<Rightarrow> number \<Rightarrow> number) \<Rightarrow> number list \<Rightarrow> number list" where
  "insertionSort comparefn xs = foldr (insertSorted comparefn) xs []"

text \<open>
  \<open>median\<close> sorts the array it is given, so the model returns the median together with the
  contents of the caller's array after the call.
\<close>

definition median ::
  "((number \<Rightarrow> number \<Rightarrow> number) \<Rightarrow> number list \<Rightarrow> number list) \<Rightarrow> number list \<Rightarrow>
   number \<times> number list" where
  "median arraySort values =
     (if length values = 0 then (Fin 0, values)
      else
        (let values = arraySort (\<lambda>a b. js_sub a b) values;
             mid = length values div 2
         in if length values mod 2 \<noteq> 0 then (values ! mid, values)
            else (js_div (js_add (values ! (mid - 1)) (values ! mid)) (Fin 2), values)))"

section \<open>Vectors\<close>

text \<open>
  An instance of the class \<open>Vector2\<close> has the two fields of a \<open>Point2\<close> and nothing else, and
  an instance of \<open>Vector3\<close> the three fields of a \<open>Point3\<close>. A thrown \<open>Error\<close> is a value
  that carries the message.
\<close>

type_synonym Vector2 = Point2

record Point3 = Point2 +
  z :: number

type_synonym Vector3 = Point3

datatype error = Error string

definition Vector2_add :: "Vector2 \<Rightarrow> Vector2 \<Rightarrow> Vector2" where
  "Vector2_add this v =
     \<lparr>x = js_add (Point2.x this) (Point2.x v), y = js_add (Point2.y this) (Point2.y v)\<rparr>"

definition Vector2_divide :: "Vector2 \<Rightarrow> number \<Rightarrow> error + Vector2" where
  "Vector2_divide this scalar =
     (if js_eq scalar (Fin 0) then Inl (Error ''Cannot divide by zero'')
      else Inr \<lparr>x = js_div (Point2.x this) scalar, y = js_div (Point2.y this) scalar\<rparr>)"

text \<open>\<^verbatim>\<open>vectors.reduce((acc, vec) => acc.add(vec), new Vector2(0, 0))\<close> is a left fold.\<close>

definition Vector2_center :: "Vector2 list \<Rightarrow> error + Vector2" where
  "Vector2_center vectors =
     (if length vectors = 0 then Inl (Error ''No vectors provided.'')
      else
        (let sum = foldl (\<lambda>acc vec. Vector2_add acc vec) \<lparr>x = Fin 0, y = Fin 0\<rparr> vectors;
             count = Fin (real (length vectors))
         in Inr \<lparr>x = js_div (Point2.x sum) count, y = js_div (Point2.y sum) count\<rparr>))"

text \<open>
  The length of a vector is computed in double arithmetic, which rounds: the square of a very
  small component underflows to \<open>0\<close>, that of a very large one overflows to \<open>Infinity\<close>.
  Which branch \<open>normalize\<close> takes on a vector therefore depends on the rounding. In the
  models of \<open>length\<close>, \<open>scale\<close> and \<open>normalize\<close> the arithmetic is a parameter \<open>fp\<close>: any five
  operators in the place of \<^verbatim>\<open>*\<close>, \<^verbatim>\<open>+\<close>, \<^verbatim>\<open>/\<close>, \<^verbatim>\<open>Math.sqrt\<close> and \<^verbatim>\<open>** 2\<close>. The
  comparisons \<^verbatim>\<open>===\<close> and \<^verbatim>\<open>>\<close> do not round. \<open>exactArithmetic\<close> is the arithmetic of the
  number model, in which a finite result is not rounded; \<open>zeroExact\<close> holds of an arithmetic
  that computes on zeros as every IEEE arithmetic does.
\<close>

record arithmetic =
  fp_mul :: "number \<Rightarrow> number \<Rightarrow> number"
  fp_add :: "number \<Rightarrow> number \<Rightarrow> number"
  fp_div :: "number \<Rightarrow> number \<Rightarrow> number"
  fp_sqrt :: "number \<Rightarrow> number"
  fp_pow2 :: "number \<Rightarrow> number"

definition exactArithmetic :: arithmetic where
  "exactArithmetic =
     \<lparr>fp_mul = js_mul, fp_add = js_add, fp_div = js_div, fp_sqrt = js_sqrt, fp_pow2 = js_pow2\<rparr>"

definition zeroExact :: "arithmetic \<Rightarrow> bool" where
  "zeroExact fp \<longleftrightarrow>
     fp_mul fp (Fin 0) (Fin 0) = Fin 0 \<and> fp_add fp (Fin 0) (Fin 0) = Fin 0 \<and>
     fp_sqrt fp (Fin 0) = Fin 0 \<and> fp_pow2 fp (Fin 0) = Fin 0"

text \<open>
  An arithmetic that underflows: a product or a square of finite numbers that is smaller in
  magnitude than \<^verbatim>\<open>2 ** -1075\<close>, half the smallest positive double, is \<open>0\<close>, as
  rounding to nearest makes it; everything else is as in \<open>exactArithmetic\<close>. It serves to follow
  \<open>normalize\<close> on vectors with very small components.
\<close>

definition underflowArithmetic :: arithmetic where
  "underflowArithmetic =
     exactArithmetic
       \<lparr>fp_mul := \<lambda>a b. (case (a, b) of
                          (Fin r, Fin s) \<Rightarrow> if \<bar>r * s\<bar> < 1 / 2 ^ 1075 then Fin 0 else Fin (r * s)
                        | _ \<Rightarrow> js_mul a b),
        fp_pow2 := \<lambda>a. (case a of
                          Fin r \<Rightarrow> if r ^ 2 < 1 / 2 ^ 1075 then Fin 0 else Fin (r ^ 2)
                        | _ \<Rightarrow> js_pow2 a)\<rparr>"

definition Vector2_length :: "arithmetic \<Rightarrow> Vector2 \<Rightarrow> number" where
  "Vector2_length fp this =
     fp_sqrt fp (fp_add fp (fp_mul fp (Point2.x this) (Point2.x this))
                           (fp_mul fp (Point2.y this) (Point2.y this)))"

definition Vector3_scale :: "arithmetic \<Rightarrow> Vector3 \<Rightarrow> number \<Rightarrow> Vector3" where
  "Vector3_scale fp this scalar =
     \<lparr>x = fp_mul fp (Point2.x this) scalar, y = fp_mul fp (Point2.y this) scalar,
      z = fp_mul fp (Point3.z this) scalar\<rparr>"

text \<open>
  \<open>normalize\<close> may return its receiver, so it is modelled on a store of objects: a reference is
  an index into the store, \<open>new\<close> appends an object and returns its index, and a method
  returns a reference together with the store.
\<close>

definition new :: "'o \<Rightarrow> 'o list \<Rightarrow> nat \<times> 'o list" where
  "new obj store = (length store, store @ [obj])"

definition Vector2_normalize :: "arithmetic \<Rightarrow> nat \<Rightarrow> Vector2 list \<Rightarrow> nat \<times> Vector2 list" where
  "Vector2_normalize fp this store =
     (let len = Vector2_length fp (store ! this)
      in if js_eq len (Fin 0) then new \<lparr>x = Fin 0, y = Fin 0\<rparr> store
         else new \<lparr>x = fp_div fp (Point2.x (store ! this)) len,
                   y = fp_div fp (Point2.y (store ! this)) len\<rparr> store)"

definition Vector3_normalize :: "arithmetic \<Rightarrow> nat \<Rightarrow> Vector3 list \<Rightarrow> nat \<times> Vector3 list" where
  "Vector3_normalize fp this store =
     (let length = fp_sqrt fp (fp_add fp (fp_add fp (fp_pow2 fp (Point2.x (store ! this)))
                                                    (fp_pow2 fp (Point2.y (store ! this))))
                                         (fp_pow2 fp (Point3.z (store ! this))))
      in if js_gt length (Fin 0)
         then new (Vector3_scale fp (store ! this) (fp_div fp (Fin 1) length)) store
         else (this, store))"

section \<open>Vector2Set\<close>

text \<open>
  A JavaScript \<open>Map\<close> keeps its entries in insertion order, and \<open>set\<close> on a key that is
  present replaces the value where the entry stands: an association list. The conversion of
  a number to a string, used by the template literal of \<open>toString\<close>, is a built-in of the
  language and is a parameter of the model.
\<close>

fun Map_set :: "'k \<Rightarrow> 'v \<Rightarrow> ('k \<times> 'v) list \<Rightarrow> ('k \<times> 'v) list" where
  "Map_set k v [] = [(k, v)]"
| "Map_set k v (e # es) = (if fst e = k then (k, v) # es else e # Map_set k v es)"

definition Map_has :: "'k \<Rightarrow> ('k \<times> 'v) list \<Rightarrow> bool" where
  "Map_has k m = (k \<in> set (map fst m))"

definition Map_values :: "('k \<times> 'v) list \<Rightarrow> 'v list" where
  "Map_values m = map snd m"

definition Vector2_toString :: "(number \<Rightarrow> string) \<Rightarrow> 'a Point2_scheme \<Rightarrow> string" where
  "Vector2_toString numberToString this =
     numberToString (Point2.x this) @ '','' @ numberToString (Point2.y this)"

text \<open>The object has the one field \<open>map\<close>.\<close>

type_synonym 'a Vector2Set = "(string \<times> 'a Point2_scheme) list"

definition Vector2Set_new :: "'a Vector2Set" where
  "Vector2Set_new = []"

definition Vector2Set_add ::
  "(number \<Rightarrow> string) \<Rightarrow> 'a Point2_scheme \<Rightarrow> 'a Vector2Set \<Rightarrow> 'a Vector2Set" where
  "Vector2Set_add numberToString vector this =
     Map_set (Vector2_toString numberToString vector) vector this"

definition Vector2Set_has ::
  "(number \<Rightarrow> string) \<Rightarrow> 'a Point2_scheme \<Rightarrow> 'a Vector2Set \<Rightarrow> bool" where
  "Vector2Set_has numberToString vector this =
     Map_has (Vector2_toString numberToString vector) this"

definition Vector2Set_values :: "'a Vector2Set \<Rightarrow> 'a Point2_scheme list" where
  "Vector2Set_values this = Map_values this"

definition Vector2Set_toArray :: "'a Vector2Set \<Rightarrow> 'a Point2_scheme list" where
  "Vector2Set_toArray this = Vector2Set_values this"

section \<open>PriorityQueue\<close>

text \<open>
  The heap is the array \<open>items\<close>. Indices are natural numbers. The shifts
  \<^verbatim>\<open>(current - 1) >> 1\<close> and \<^verbatim>\<open>(current << 1) + 1\<close> work on 32-bit integers; on the indices
  of an array of fewer than \<open>2^30\<close> elements they are the halving and the doubling written
  below, and larger arrays are left out of the model. \<open>heapifyUp\<close> and \<open>heapifyDown\<close> are
  private: \<open>enqueue\<close> and \<open>dequeue\<close> call them with an index inside the array, and they read
  no index outside it.
\<close>

record 'a QueueItem =
  item :: 'a
  priority :: number

record 'a PriorityQueue =
  items :: "'a QueueItem list"
  compare :: "number \<Rightarrow> number \<Rightarrow> number"

definition PriorityQueue_new :: "(number \<Rightarrow> number \<Rightarrow> number) \<Rightarrow> 'a PriorityQueue" where
  "PriorityQueue_new cmp = \<lparr>items = [], compare = cmp\<rparr>"

text \<open>The default comparator \<^verbatim>\<open>(a, b) => a - b\<close>.\<close>

definition defaultCompare :: "number \<Rightarrow> number \<Rightarrow> number" where
  "defaultCompare a b = js_sub a b"

function heapifyUp ::
  "(number \<Rightarrow> number \<Rightarrow> number) \<Rightarrow> 'a QueueItem list \<Rightarrow> nat \<Rightarrow> 'a QueueItem list" where
  "heapifyUp cmp its current =
     (if current > 0 then
        (let parent = (current - 1) div 2
         in if js_ge (cmp (priority (its ! current)) (priority (its ! parent))) (Fin 0) then its
            else heapifyUp cmp (its[current := its ! parent, parent := its ! current]) parent)
      else its)"
  by pat_completeness auto
termination
  by (relation "measure (\<lambda>(cmp, its, current). current)") auto

function heapifyDown ::
  "(number \<Rightarrow> number \<Rightarrow> number) \<Rightarrow> 'a QueueItem list \<Rightarrow> nat \<Rightarrow> 'a QueueItem list" where
  "heapifyDown cmp its current =
     (let left = 2 * current + 1;
          right = left + 1;
          smallest = current;
          smallest = (if left < length its \<and>
                         js_lt (cmp (priority (its ! left)) (priority (its ! smallest))) (Fin 0)
                      then left else smallest);
          smallest = (if right < length its \<and>
                         js_lt (cmp (priority (its ! right)) (priority (its ! smallest))) (Fin 0)
                      then right else smallest)
      in if smallest = current then its
         else heapifyDown cmp (its[current := its ! smallest, smallest := its ! current]) smallest)"
  by pat_completeness auto
termination
  by (relation "measure (\<lambda>(cmp, its, current). length its - current)")
     (auto split: if_splits)

definition enqueue :: "'a \<Rightarrow> number \<Rightarrow> 'a PriorityQueue \<Rightarrow> 'a PriorityQueue" where
  "enqueue itm prio this =
     (let its = items this @ [\<lparr>item = itm, priority = prio\<rparr>]
      in this\<lparr>items := heapifyUp (compare this) its (length its - 1)\<rparr>)"

definition dequeue :: "'a PriorityQueue \<Rightarrow> 'a option \<times> 'a PriorityQueue" where
  "dequeue this =
     (let len = length (items this)
      in if len = 0 then (None, this)
         else
           (let root = item (items this ! 0)
            in if len = 1 then (Some root, this\<lparr>items := butlast (items this)\<rparr>)
               else
                 (let last = last (items this);
                      its = (butlast (items this))[0 := last]
                  in (Some root, this\<lparr>items := heapifyDown (compare this) its 0\<rparr>))))"

definition peek :: "'a PriorityQueue \<Rightarrow> 'a option" where
  "peek this = (if length (items this) > 0 then Some (item (items this ! 0)) else None)"

definition isEmpty :: "'a PriorityQueue \<Rightarrow> bool" where
  "isEmpty this = (length (items this) = 0)"

definition size_queue :: "'a PriorityQueue \<Rightarrow> nat" where
  "size_queue this = length (items this)"

declare heapifyUp.simps [simp del] heapifyDown.simps [simp del]

text \<open>
  The index that the body of the loop of \<open>heapifyDown\<close> computes in \<open>smallest\<close>, and the
  loop restated with it.
\<close>

definition smallestOf :: "(number \<Rightarrow> number \<Rightarrow> number) \<Rightarrow> 'a QueueItem list \<Rightarrow> nat \<Rightarrow> nat" where
  "smallestOf cmp its current =
     (let left = 2 * current + 1;
          right = left + 1;
          smallest = current;
          smallest = (if left < length its \<and>
                         js_lt (cmp (priority (its ! left)) (priority (its ! smallest))) (Fin 0)
                      then left else smallest);
          smallest = (if right < length its \<and>
                         js_lt (cmp (priority (its ! right)) (priority (its ! smallest))) (Fin 0)
                      then right else smallest)
      in smallest)"

lemma heapifyDown_unfold:
  "heapifyDown cmp its c =
     (if smallestOf cmp its c = c then its
      else heapifyDown cmp (its[c := its ! smallestOf cmp its c, smallestOf cmp its c := its ! c])
             (smallestOf cmp its c))"
  by (subst heapifyDown.simps) (simp add: smallestOf_def Let_def)

lemma smallestOf_range:
  "smallestOf cmp its c = c \<or>
   ((smallestOf cmp its c = 2 * c + 1 \<or> smallestOf cmp its c = 2 * c + 2) \<and>
    smallestOf cmp its c < length its)"
  by (auto simp: smallestOf_def Let_def)

lemma smallestOf_induct:
  assumes "\<And>cmp its c.
     (smallestOf cmp its c \<noteq> c \<Longrightarrow>
        P cmp (its[c := its ! smallestOf cmp its c, smallestOf cmp its c := its ! c])
          (smallestOf cmp its c)) \<Longrightarrow> P cmp its c"
  shows "P cmp its c"
proof (induction cmp its c rule: heapifyDown.induct)
  case (1 cmp its current)
  show ?case
  proof (rule assms)
    assume "smallestOf cmp its current \<noteq> current"
    then have neq: "(if 2 * current + 1 + 1 < length its \<and>
          js_lt (cmp (priority (its ! (2 * current + 1 + 1)))
            (priority (its ! (if 2 * current + 1 < length its \<and>
                js_lt (cmp (priority (its ! (2 * current + 1))) (priority (its ! current))) (Fin 0)
              then 2 * current + 1 else current)))) (Fin 0)
        then 2 * current + 1 + 1
        else (if 2 * current + 1 < length its \<and>
                js_lt (cmp (priority (its ! (2 * current + 1))) (priority (its ! current))) (Fin 0)
              then 2 * current + 1 else current)) \<noteq> current"
      unfolding smallestOf_def Let_def .
    from "1.IH" [OF refl refl refl refl refl neq]
    show "P cmp (its[current := its ! smallestOf cmp its current,
        smallestOf cmp its current := its ! current]) (smallestOf cmp its current)"
      unfolding smallestOf_def Let_def .
  qed
qed

lemma length_heapifyDown: "length (heapifyDown cmp its c) = length its"
proof (induction cmp its c rule: smallestOf_induct)
  case (1 cmp its c)
  then show ?case by (subst heapifyDown_unfold) simp
qed

text \<open>
  The scenario of the claims about the queue: the pairs are enqueued in the order given, and
  then the queue is dequeued until \<open>isEmpty\<close> holds, the results being collected in order.
\<close>

definition enqueueAll :: "('a \<times> number) list \<Rightarrow> 'a PriorityQueue \<Rightarrow> 'a PriorityQueue" where
  "enqueueAll xs this = foldl (\<lambda>q (a, p). enqueue a p q) this xs"

lemma size_dequeue:
  "\<not> isEmpty this \<Longrightarrow> size_queue (snd (dequeue this)) < size_queue this"
  by (auto simp: isEmpty_def size_queue_def dequeue_def Let_def length_heapifyDown)

function dequeueAll :: "'a PriorityQueue \<Rightarrow> 'a list" where
  "dequeueAll this =
     (if isEmpty this then []
      else (case dequeue this of
              (None, q) \<Rightarrow> []
            | (Some a, q) \<Rightarrow> a # dequeueAll q))"
  by pat_completeness auto
termination
proof (relation "measure size_queue", goal_cases)
  case 1
  show ?case by simp
next
  case (2 this r q a)
  then have "snd (dequeue this) = q" by (metis snd_conv)
  with 2 size_dequeue [of this] show ?case by simp
qed

declare dequeueAll.simps [simp del]

section \<open>Auxiliary definitions\<close>

text \<open>
  Two devices of the proofs, not part of the program. \<open>rank\<close> embeds the numbers other
  than NaN into a linear order, so that the relational operators can be read as comparisons
  of ranks. \<open>scan\<close> is the loop of \<open>findFurthestPoint\<close> run over the list of interior
  points instead of over indices.
\<close>

fun rank :: "number \<Rightarrow> int \<times> real" where
  "rank NegInf = (- 1, 0)"
| "rank (Fin r) = (0, r)"
| "rank PosInf = (1, 0)"
| "rank NaN = (2, 0)"

fun scan :: "('p \<Rightarrow> number) \<Rightarrow> 'p list \<Rightarrow> nat \<Rightarrow> number \<times> int \<Rightarrow> number \<times> int" where
  "scan D [] i acc = acc"
| "scan D (p # ps) i acc =
     scan D ps (i + 1) (if js_gt (D p) (fst acc) then (D p, int i) else acc)"

text \<open>The mean of a list of numbers, as the spec words it: the sum divided by the count.\<close>

definition mean :: "number list \<Rightarrow> number" where
  "mean ns = js_div (foldl js_add (Fin 0) ns) (Fin (real (length ns)))"

text \<open>The invariant of the set: the keys are distinct and every key is the string of the vector stored under it.\<close>

definition Vector2Set_inv :: "(number \<Rightarrow> string) \<Rightarrow> 'a Vector2Set \<Rightarrow> bool" where
  "Vector2Set_inv numberToString this \<longleftrightarrow>
     distinct (map fst this) \<and>
     (\<forall>e\<in>set this. fst e = Vector2_toString numberToString (snd e))"

text \<open>The coordinate pair of a vector.\<close>

definition coordinates :: "'a Point2_scheme \<Rightarrow> number \<times> number" where
  "coordinates v = (Point2.x v, Point2.y v)"

text \<open>
  The heap invariant of the queue, stated on the keys (the ranks of the priorities):
  \<open>heap_keys\<close> is the invariant itself, \<open>hole_up\<close> and \<open>hole_down\<close> are what holds while
  \<open>heapifyUp\<close> and \<open>heapifyDown\<close> run, the invariant with one position left out.
\<close>

definition heap_keys :: "(nat \<Rightarrow> 'k::linorder) \<Rightarrow> nat \<Rightarrow> bool" where
  "heap_keys f n \<longleftrightarrow> (\<forall>i. 0 < i \<and> i < n \<longrightarrow> f ((i - 1) div 2) \<le> f i)"

definition hole_up :: "(nat \<Rightarrow> 'k::linorder) \<Rightarrow> nat \<Rightarrow> nat \<Rightarrow> bool" where
  "hole_up f n c \<longleftrightarrow>
     (\<forall>i. 0 < i \<and> i < n \<and> i \<noteq> c \<longrightarrow> f ((i - 1) div 2) \<le> f i) \<and>
     (\<forall>i. 0 < i \<and> i < n \<and> (i - 1) div 2 = c \<and> 0 < c \<longrightarrow> f ((c - 1) div 2) \<le> f i)"

definition hole_down :: "(nat \<Rightarrow> 'k::linorder) \<Rightarrow> nat \<Rightarrow> nat \<Rightarrow> bool" where
  "hole_down f n c \<longleftrightarrow>
     (\<forall>i. 0 < i \<and> i < n \<and> (i - 1) div 2 \<noteq> c \<longrightarrow> f ((i - 1) div 2) \<le> f i) \<and>
     (\<forall>i. 0 < i \<and> i < n \<and> (i - 1) div 2 = c \<and> 0 < c \<longrightarrow> f ((c - 1) div 2) \<le> f i)"

definition keyOf :: "'a QueueItem list \<Rightarrow> nat \<Rightarrow> int \<times> real" where
  "keyOf its i = rank (priority (its ! i))"

definition numeric :: "'a QueueItem list \<Rightarrow> bool" where
  "numeric its \<longleftrightarrow> (\<forall>e\<in>set its. priority e \<noteq> NaN)"

definition queue_inv :: "'a PriorityQueue \<Rightarrow> bool" where
  "queue_inv q \<longleftrightarrow>
     compare q = defaultCompare \<and> numeric (items q) \<and>
     heap_keys (keyOf (items q)) (length (items q))"

section \<open>Properties of the number operators\<close>

lemma js_lt_rank: "js_lt a b \<longleftrightarrow> a \<noteq> NaN \<and> b \<noteq> NaN \<and> rank a < rank b"
  by (cases a; cases b; simp add: less_prod_def)

lemma js_le_rank: "js_le a b \<longleftrightarrow> a \<noteq> NaN \<and> b \<noteq> NaN \<and> rank a \<le> rank b"
  by (cases a; cases b; simp add: less_eq_prod_def not_less)

lemma js_gt_rank: "js_gt a b \<longleftrightarrow> a \<noteq> NaN \<and> b \<noteq> NaN \<and> rank b < rank a"
  by (auto simp: js_gt_def js_lt_rank)

lemma js_ge_rank: "js_ge a b \<longleftrightarrow> a \<noteq> NaN \<and> b \<noteq> NaN \<and> rank b \<le> rank a"
  by (auto simp: js_ge_def js_le_rank)

lemma js_gt_trans: "js_gt a b \<Longrightarrow> js_gt b c \<Longrightarrow> js_gt a c"
  unfolding js_gt_rank by (elim conjE) (intro conjI; order?)

lemma js_gt_le_trans: "js_gt a b \<Longrightarrow> js_le c b \<Longrightarrow> js_gt a c"
  unfolding js_gt_rank js_le_rank by (elim conjE) (intro conjI; order?)

lemma js_not_ge_above: "js_gt p m \<Longrightarrow> \<not> js_gt a m \<Longrightarrow> \<not> js_ge a p"
  unfolding js_gt_rank js_ge_rank by auto

lemma js_not_ge_trans: "js_gt p q \<Longrightarrow> \<not> js_ge a q \<Longrightarrow> \<not> js_ge a p"
  unfolding js_gt_rank js_ge_rank by auto

lemma js_gt_not_ge: "js_gt p q \<Longrightarrow> \<not> js_ge q p"
  unfolding js_gt_rank js_ge_rank by auto

lemma js_gt_of_not_ge: "js_gt a m \<Longrightarrow> js_gt q m \<Longrightarrow> \<not> js_ge a q \<Longrightarrow> js_gt q a"
  unfolding js_gt_rank js_ge_rank by auto

lemma js_NaN_right [simp]:
  "js_add a NaN = NaN" "js_mul a NaN = NaN" "js_div a NaN = NaN" "js_sub a NaN = NaN"
  "js_lt a NaN = False" "js_le a NaN = False" "js_gt NaN a = False" "js_ge NaN a = False"
  by (cases a; simp add: js_sub_def js_gt_def js_ge_def)+

lemma js_NaN_left [simp]:
  "js_sub NaN a = NaN" "js_gt a NaN = False" "js_ge a NaN = False"
  by (simp_all add: js_sub_def js_gt_def js_ge_def)

lemma js_sub_self: "js_sub a a = Fin 0 \<or> js_sub a a = NaN"
  by (cases a) (simp_all add: js_sub_def)

lemma js_sub_self_Fin: "js_sub a a = Fin 0 \<Longrightarrow> \<exists>r. a = Fin r"
  by (cases a) (simp_all add: js_sub_def)

lemma js_mul_zero: "js_mul (Fin 0) a = Fin 0 \<or> js_mul (Fin 0) a = NaN"
  by (cases a) simp_all

section \<open>Properties of the path simplifier\<close>

lemma slice_drop_last: "slice xs 0 (- 1) = butlast xs"
proof -
  have "nat (max (int (length xs) - 1) 0) = length xs - 1" by linarith
  then show ?thesis by (simp add: slice_def relativeIndex_def Let_def butlast_conv_take)
qed

lemma slice_prefix_decomp:
  "slice (s # A @ q # B @ [e]) 0 (int (length A) + 1 + 1) = s # A @ [q]"
  by (simp add: slice_def relativeIndex_def Let_def nat_add_distrib)

lemma sliceFrom_decomp:
  "sliceFrom (s # A @ q # B @ [e]) (int (length A) + 1) = q # B @ [e]"
  by (simp add: sliceFrom_def relativeIndex_def nat_add_distrib)

lemma interior_decomp:
  assumes "1 \<le> k" "k < int (length (s # X @ [e])) - 1"
  shows "\<exists>A q B. X = A @ q # B \<and> int (length A) = k - 1"
proof -
  from assms have lt: "nat (k - 1) < length X" by simp
  have "X = take (nat (k - 1)) X @ X ! nat (k - 1) # drop (Suc (nat (k - 1))) X"
    using lt by (simp add: id_take_nth_drop [symmetric])
  moreover have "int (length (take (nat (k - 1)) X)) = k - 1"
    using lt assms by simp
  ultimately show ?thesis by blast
qed

lemma douglasPeucker_short: "length path < 3 \<Longrightarrow> douglasPeucker path epsilon = path"
  by (subst douglasPeucker.simps) simp

lemma douglasPeucker_collapse:
  "findFurthestPoint (s # X @ [e]) epsilon = - 1 \<Longrightarrow> X \<noteq> [] \<Longrightarrow>
   douglasPeucker (s # X @ [e]) epsilon = [s, e]"
  by (subst douglasPeucker.simps) (cases X; simp add: nth_append)

lemma douglasPeucker_split:
  "findFurthestPoint (s # A @ q # B @ [e]) epsilon = int (length A) + 1 \<Longrightarrow>
   douglasPeucker (s # A @ q # B @ [e]) epsilon =
     butlast (douglasPeucker (s # A @ [q]) epsilon) @ douglasPeucker (q # B @ [e]) epsilon"
  apply (subst douglasPeucker.simps)
  apply (simp add: Let_def slice_drop_last)
  using slice_prefix_decomp [of s A q B e] sliceFrom_decomp [of s A q B e]
  apply (simp add: add.commute)
  done

lemma douglasPeucker_shape:
  "\<exists>M. douglasPeucker (s # X @ [e]) epsilon = s # M @ [e] \<and> subseq M X"
proof (induction "length X" arbitrary: s X e rule: less_induct)
  case less
  show ?case
  proof (cases "X = []")
    case True
    then show ?thesis by (simp add: douglasPeucker_short)
  next
    case False
    let ?k = "findFurthestPoint (s # X @ [e]) epsilon"
    show ?thesis
    proof (cases "?k = - 1")
      case True
      with False show ?thesis by (simp add: douglasPeucker_collapse)
    next
      case k: False
      with findFurthestPoint_range [of "s # X @ [e]" epsilon]
      have "1 \<le> ?k" "?k < int (length (s # X @ [e])) - 1" by auto
      from interior_decomp [OF this] obtain A q B
        where X: "X = A @ q # B" and A: "int (length A) = ?k - 1" by blast
      from A have kk: "findFurthestPoint (s # A @ q # B @ [e]) epsilon = int (length A) + 1"
        by (simp add: X)
      from less [of A s q] X obtain M1
        where M1: "douglasPeucker (s # A @ [q]) epsilon = s # M1 @ [q]" "subseq M1 A" by auto
      from less [of B q e] X obtain M2
        where M2: "douglasPeucker (q # B @ [e]) epsilon = q # M2 @ [e]" "subseq M2 B" by auto
      have "douglasPeucker (s # X @ [e]) epsilon = s # (M1 @ q # M2) @ [e]"
        using douglasPeucker_split [OF kk] M1(1) M2(1) by (simp add: X butlast_append)
      moreover have "subseq (M1 @ q # M2) X"
        unfolding X using M1(2) M2(2) by (intro list_emb_append_mono) simp_all
      ultimately show ?thesis by blast
    qed
  qed
qed

lemma findFurthestLoop_eval:
  "findFurthestLoop path i m idx =
     (if i < length path - 1 then
        (if js_gt (perpendicularDistance (path ! i) (path ! 0) (path ! (length path - 1))) m
         then findFurthestLoop path (Suc i)
                (perpendicularDistance (path ! i) (path ! 0) (path ! (length path - 1))) (int i)
         else findFurthestLoop path (Suc i) m idx)
      else (m, idx))"
  by (subst findFurthestLoop.simps) (simp add: Let_def)

text \<open>
  Two tests of the repository (\<open>douglas-peucker.test.ts\<close>), evaluated on the model: a straight
  line collapses to its end points, and a single deviation above the tolerance is kept.
\<close>

lemma douglasPeucker_test_straight_line:
  "douglasPeucker
     [\<lparr>x = Fin 0, y = Fin 0\<rparr>, \<lparr>x = Fin 1, y = Fin 1\<rparr>, \<lparr>x = Fin 2, y = Fin 2\<rparr>,
      \<lparr>x = Fin 3, y = Fin 3\<rparr>, \<lparr>x = Fin 4, y = Fin 4\<rparr>] (Fin (1 / 10)) =
   [\<lparr>x = Fin 0, y = Fin 0\<rparr>, \<lparr>x = Fin 4, y = Fin 4\<rparr>]"
proof -
  have d: "perpendicularDistance \<lparr>x = Fin a, y = Fin a\<rparr> \<lparr>x = Fin 0, y = Fin 0\<rparr> \<lparr>x = Fin 4, y = Fin 4\<rparr> = Fin 0" for a
    by (simp add: perpendicularDistance_def js_sub_def Let_def)
  have "findFurthestPoint
     [\<lparr>x = Fin 0, y = Fin 0\<rparr>, \<lparr>x = Fin 1, y = Fin 1\<rparr>, \<lparr>x = Fin 2, y = Fin 2\<rparr>,
      \<lparr>x = Fin 3, y = Fin 3\<rparr>, \<lparr>x = Fin 4, y = Fin 4\<rparr>] (Fin (1 / 10)) = - 1"
    by (simp add: findFurthestPoint_def findFurthestLoop_eval d js_gt_def)
  then show ?thesis
    by (subst douglasPeucker.simps) simp
qed

lemma douglasPeucker_test_single_deviation:
  "douglasPeucker
     [\<lparr>x = Fin 0, y = Fin 0\<rparr>, \<lparr>x = Fin 1, y = Fin 0\<rparr>, \<lparr>x = Fin 2, y = Fin 1\<rparr>,
      \<lparr>x = Fin 3, y = Fin 0\<rparr>, \<lparr>x = Fin 4, y = Fin 0\<rparr>] (Fin (1 / 2)) =
   [\<lparr>x = Fin 0, y = Fin 0\<rparr>, \<lparr>x = Fin 2, y = Fin 1\<rparr>, \<lparr>x = Fin 4, y = Fin 0\<rparr>]"
proof -
  have s16: "sqrt 16 = 4" using real_sqrt_abs [of 4] by simp
  have s5: "1 / sqrt 5 < 1 / 2"
  proof -
    have "2 < sqrt 5" by (rule real_less_rsqrt) simp
    then show ?thesis by (simp add: field_simps)
  qed
  have d: "perpendicularDistance \<lparr>x = Fin a, y = Fin b\<rparr> \<lparr>x = Fin 0, y = Fin 0\<rparr> \<lparr>x = Fin 4, y = Fin 0\<rparr> = Fin \<bar>b\<bar>" for a b
    by (simp add: perpendicularDistance_def js_sub_def Let_def s16 abs_mult)
  have k: "findFurthestPoint
     [\<lparr>x = Fin 0, y = Fin 0\<rparr>, \<lparr>x = Fin 1, y = Fin 0\<rparr>, \<lparr>x = Fin 2, y = Fin 1\<rparr>,
      \<lparr>x = Fin 3, y = Fin 0\<rparr>, \<lparr>x = Fin 4, y = Fin 0\<rparr>] (Fin (1 / 2)) = 2"
    by (simp add: findFurthestPoint_def findFurthestLoop_eval d js_gt_def)
  have dl: "perpendicularDistance \<lparr>x = Fin 1, y = Fin 0\<rparr> \<lparr>x = Fin 0, y = Fin 0\<rparr> \<lparr>x = Fin 2, y = Fin 1\<rparr> = Fin (1 / sqrt 5)"
    by (simp add: perpendicularDistance_def js_sub_def Let_def)
  have dr: "perpendicularDistance \<lparr>x = Fin 3, y = Fin 0\<rparr> \<lparr>x = Fin 2, y = Fin 1\<rparr> \<lparr>x = Fin 4, y = Fin 0\<rparr> = Fin (1 / sqrt 5)"
    by (simp add: perpendicularDistance_def js_sub_def Let_def)
  have l: "douglasPeucker [\<lparr>x = Fin 0, y = Fin 0\<rparr>, \<lparr>x = Fin 1, y = Fin 0\<rparr>, \<lparr>x = Fin 2, y = Fin 1\<rparr>] (Fin (1 / 2))
      = [\<lparr>x = Fin 0, y = Fin 0\<rparr>, \<lparr>x = Fin 2, y = Fin 1\<rparr>]"
    using s5 by (subst douglasPeucker.simps)
      (simp add: findFurthestPoint_def findFurthestLoop_eval dl js_gt_def)
  have r: "douglasPeucker [\<lparr>x = Fin 2, y = Fin 1\<rparr>, \<lparr>x = Fin 3, y = Fin 0\<rparr>, \<lparr>x = Fin 4, y = Fin 0\<rparr>] (Fin (1 / 2))
      = [\<lparr>x = Fin 2, y = Fin 1\<rparr>, \<lparr>x = Fin 4, y = Fin 0\<rparr>]"
    using s5 by (subst douglasPeucker.simps)
      (simp add: findFurthestPoint_def findFurthestLoop_eval dr js_gt_def)
  show ?thesis
    by (subst douglasPeucker.simps)
      (simp add: k slice_def sliceFrom_def relativeIndex_def Let_def l r)
qed

lemma path_ends: "2 \<le> length path \<Longrightarrow> \<exists>s X e. path = s # X @ [e]"
proof -
  assume "2 \<le> length path"
  then obtain s ys where p: "path = s # ys" and ys: "ys \<noteq> []" by (cases path; force)
  from ys have "ys = butlast ys @ [last ys]" by simp
  with p show ?thesis by blast
qed

text \<open>
  Claim C2. For every path and every tolerance (so in particular every non-negative one), the
  result of \<open>douglasPeucker\<close> is no longer than the path, and when the path is not empty
  the result is not empty either, starts with the first point of the path and ends with its
  last point.
\<close>

theorem douglasPeucker_keeps_endpoints:
  "length (douglasPeucker path epsilon) \<le> length path \<and>
   (path \<noteq> [] \<longrightarrow>
      douglasPeucker path epsilon \<noteq> [] \<and>
      hd (douglasPeucker path epsilon) = hd path \<and>
      last (douglasPeucker path epsilon) = last path)"
proof (cases "2 \<le> length path")
  case False
  then show ?thesis by (simp add: douglasPeucker_short)
next
  case True
  from path_ends [OF this] obtain s X e where p: "path = s # X @ [e]" by blast
  from douglasPeucker_shape [of s X e epsilon] obtain M
    where M: "douglasPeucker (s # X @ [e]) epsilon = s # M @ [e]" "subseq M X" by blast
  from M(2) have "length M \<le> length X" by (rule list_emb_length)
  with M(1) show ?thesis by (simp add: p)
qed

theorem douglasPeucker_keeps_endpoints_witness:
  "length (douglasPeucker
     [\<lparr>x = Fin 0, y = Fin 0\<rparr>, \<lparr>x = Fin 1, y = Fin 1\<rparr>, \<lparr>x = Fin 2, y = Fin 0\<rparr>] (Fin (1/2))) \<le> 3 \<and>
   hd (douglasPeucker
     [\<lparr>x = Fin 0, y = Fin 0\<rparr>, \<lparr>x = Fin 1, y = Fin 1\<rparr>, \<lparr>x = Fin 2, y = Fin 0\<rparr>] (Fin (1/2)))
     = \<lparr>x = Fin 0, y = Fin 0\<rparr> \<and>
   last (douglasPeucker
     [\<lparr>x = Fin 0, y = Fin 0\<rparr>, \<lparr>x = Fin 1, y = Fin 1\<rparr>, \<lparr>x = Fin 2, y = Fin 0\<rparr>] (Fin (1/2)))
     = \<lparr>x = Fin 2, y = Fin 0\<rparr>"
  using douglasPeucker_keeps_endpoints
    [of "[\<lparr>x = Fin 0, y = Fin 0\<rparr>, \<lparr>x = Fin 1, y = Fin 1\<rparr>, \<lparr>x = Fin 2, y = Fin 0\<rparr>]" "Fin (1/2)"]
  by simp

lemma perpendicularDistance_coincident:
  assumes "Point2.x lineStart = Point2.x lineEnd" "Point2.y lineStart = Point2.y lineEnd"
  shows "perpendicularDistance point lineStart lineEnd = NaN"
proof -
  let ?x0 = "Point2.x point" and ?y0 = "Point2.y point"
  let ?x1 = "Point2.x lineEnd" and ?y1 = "Point2.y lineEnd"
  show ?thesis
  proof (cases "js_sub ?x1 ?x1 = Fin 0 \<and> js_sub ?y1 ?y1 = Fin 0")
    case False
    with js_sub_self [of ?x1] js_sub_self [of ?y1]
    have "js_sub ?x1 ?x1 = NaN \<or> js_sub ?y1 ?y1 = NaN" by auto
    then have "js_sqrt (js_add (js_pow2 (js_sub ?y1 ?y1)) (js_pow2 (js_sub ?x1 ?x1))) = NaN"
      using js_sub_self [of ?x1] js_sub_self [of ?y1] by auto
    then show ?thesis
      using assms by (simp add: perpendicularDistance_def Let_def)
  next
    case True
    then obtain a b where ab: "?x1 = Fin a" "?y1 = Fin b"
      using js_sub_self_Fin by blast
    have den: "js_sqrt (js_add (js_pow2 (js_sub ?y1 ?y1)) (js_pow2 (js_sub ?x1 ?x1))) = Fin 0"
      using True by simp
    have "js_sub (js_mul (Fin 0) ?x0) (js_mul (Fin 0) ?y0) = Fin 0 \<or>
          js_sub (js_mul (Fin 0) ?x0) (js_mul (Fin 0) ?y0) = NaN"
      using js_mul_zero [of ?x0] js_mul_zero [of ?y0] by (auto simp: js_sub_def)
    then have "js_abs (js_sub (js_add (js_sub (js_mul (Fin 0) ?x0) (js_mul (Fin 0) ?y0))
                 (js_mul ?x1 ?y1)) (js_mul ?y1 ?x1)) = Fin 0 \<or>
          js_abs (js_sub (js_add (js_sub (js_mul (Fin 0) ?x0) (js_mul (Fin 0) ?y0))
                 (js_mul ?x1 ?y1)) (js_mul ?y1 ?x1)) = NaN"
      by (auto simp: ab js_sub_def mult.commute)
    then show ?thesis
      using assms True den by (auto simp: perpendicularDistance_def Let_def)
  qed
qed

lemma findFurthestLoop_all_NaN:
  "\<forall>j. perpendicularDistance (path ! j) (path ! 0) (path ! (length path - 1)) = NaN \<Longrightarrow>
   findFurthestLoop path i m idx = (m, idx)"
proof (induction path i m idx rule: findFurthestLoop.induct)
  case (1 path i maxDist index)
  show ?case
  proof (cases "i < length path - 1")
    case False
    then show ?thesis by (simp add: findFurthestLoop_stop)
  next
    case True
    moreover have nan: "perpendicularDistance (path ! i) (path ! 0) (path ! (length path - 1)) = NaN"
      using "1.prems" by blast
    ultimately show ?thesis
      using "1.IH"(2) [OF True refl] "1.prems" by (simp add: findFurthestLoop_step)
  qed
qed

text \<open>
  Claim C9. For a path of at least three points whose first and last point have the same
  coordinates, every perpendicular distance to the reference segment is NaN, so
  \<open>findFurthestPoint\<close> returns \<open>-1\<close> and \<open>douglasPeucker\<close> returns the two
  end points only, whatever the interior points and whatever the tolerance.
\<close>

theorem douglasPeucker_coincident_endpoints:
  assumes "3 \<le> length path"
    and "Point2.x (path ! 0) = Point2.x (path ! (length path - 1))"
    and "Point2.y (path ! 0) = Point2.y (path ! (length path - 1))"
  shows "(\<forall>i. perpendicularDistance (path ! i) (path ! 0) (path ! (length path - 1)) = NaN)
    \<and> findFurthestPoint path epsilon = - 1
    \<and> douglasPeucker path epsilon = [path ! 0, path ! (length path - 1)]"
proof -
  have nan: "\<forall>i. perpendicularDistance (path ! i) (path ! 0) (path ! (length path - 1)) = NaN"
    using assms(2,3) by (simp add: perpendicularDistance_coincident)
  have "findFurthestLoop path 1 (Fin (- 1)) (- 1) = (Fin (- 1), - 1)"
    using nan by (rule findFurthestLoop_all_NaN)
  then have f: "findFurthestPoint path epsilon = - 1"
    by (simp add: findFurthestPoint_def)
  have "douglasPeucker path epsilon = [path ! 0, path ! (length path - 1)]"
    using assms(1) f by (subst douglasPeucker.simps) simp
  with nan f show ?thesis by simp
qed

theorem douglasPeucker_coincident_endpoints_witness:
  "douglasPeucker
     [\<lparr>x = Fin 0, y = Fin 0\<rparr>, \<lparr>x = Fin 50, y = Fin 80\<rparr>, \<lparr>x = Fin 9, y = Fin (- 7)\<rparr>,
      \<lparr>x = Fin 0, y = Fin 0\<rparr>] (Fin (1/2))
   = [\<lparr>x = Fin 0, y = Fin 0\<rparr>, \<lparr>x = Fin 0, y = Fin 0\<rparr>]"
  using douglasPeucker_coincident_endpoints
    [of "[\<lparr>x = Fin 0, y = Fin 0\<rparr>, \<lparr>x = Fin 50, y = Fin 80\<rparr>, \<lparr>x = Fin 9, y = Fin (- 7)\<rparr>,
      \<lparr>x = Fin 0, y = Fin 0\<rparr>]" "Fin (1/2)"]
  by simp

lemma scan_append:
  "scan D (ps @ qs) i acc = scan D qs (i + length ps) (scan D ps i acc)"
  by (induction ps arbitrary: i acc) simp_all

lemma findFurthestLoop_scan:
  "1 \<le> i \<Longrightarrow> i \<le> length X + 1 \<Longrightarrow>
   findFurthestLoop (s # X @ [e]) i m idx =
     scan (\<lambda>p. perpendicularDistance p s e) (drop (i - 1) X) i (m, idx)"
proof (induction "s # X @ [e]" i m idx rule: findFurthestLoop.induct)
  case (1 i maxDist index)
  show ?case
  proof (cases "i < length (s # X @ [e]) - 1")
    case False
    with "1.prems" have "i = length X + 1" by simp
    with False show ?thesis by (simp add: findFurthestLoop_stop)
  next
    case True
    then have lt: "i - 1 < length X" using "1.prems" by simp
    have nth: "(s # X @ [e]) ! i = X ! (i - 1)"
      using lt "1.prems" by (simp add: nth_Cons' nth_append)
    have last: "(s # X @ [e]) ! (length (s # X @ [e]) - 1) = e"
      by (simp add: nth_append)
    have dr: "drop (i - 1) X = X ! (i - 1) # drop i X"
      using lt "1.prems" by (metis Cons_nth_drop_Suc Suc_pred' less_eq_Suc_le plus_1_eq_Suc add.commute less_le_trans zero_less_one)
    show ?thesis
      using True "1.hyps"(1) [OF True refl] "1.hyps"(2) [OF True refl] "1.prems" lt
      by (simp add: findFurthestLoop_step [OF True] nth last dr del: One_nat_def)
  qed
qed

lemma findFurthestPoint_scan:
  "findFurthestPoint (s # X @ [e]) epsilon =
     (case scan (\<lambda>p. perpendicularDistance p s e) X 1 (Fin (- 1), - 1) of
        (maxDist, index) \<Rightarrow> if js_gt maxDist epsilon then index else - 1)"
  by (simp add: findFurthestPoint_def findFurthestLoop_scan)

lemma scan_below:
  "\<forall>b\<in>set B. \<not> js_gt (D b) m \<Longrightarrow> scan D B i (m, idx) = (m, idx)"
  by (induction B arbitrary: i) simp_all

lemma scan_rises:
  "js_gt q m \<Longrightarrow> \<forall>a\<in>set A. \<not> js_ge (D a) q \<Longrightarrow> js_gt q (fst (scan D A i (m, idx)))"
proof (induction A arbitrary: i m idx)
  case Nil
  then show ?case by simp
next
  case (Cons a A)
  show ?case
  proof (cases "js_gt (D a) m")
    case True
    with Cons.prems have "js_gt q (D a)"
      by (auto intro: js_gt_of_not_ge)
    with Cons.IH [of "D a" "i + 1" "int i"] Cons.prems True show ?thesis by simp
  next
    case False
    with Cons.IH [of m "i + 1" idx] Cons.prems show ?thesis by simp
  qed
qed

lemma scan_found:
  assumes "js_gt (D q) m0"
    and "\<forall>a\<in>set A. \<not> js_ge (D a) (D q)"
    and "\<forall>b\<in>set B. \<not> js_gt (D b) (D q)"
  shows "scan D (A @ q # B) i (m0, idx0) = (D q, int (i + length A))"
proof -
  obtain m1 idx1 where r: "scan D A i (m0, idx0) = (m1, idx1)"
    by (cases "scan D A i (m0, idx0)")
  from scan_rises [OF assms(1,2), of i idx0] r have "js_gt (D q) m1" by simp
  with r assms(3) show ?thesis
    by (simp add: scan_append scan_below)
qed

lemma scan_sound:
  "scan D X i (m0, idx0) = (m, idx) \<Longrightarrow>
   (m = m0 \<and> idx = idx0 \<and> (\<forall>a\<in>set X. \<not> js_gt (D a) m0)) \<or>
   (\<exists>A q B. X = A @ q # B \<and> idx = int (i + length A) \<and> m = D q \<and> js_gt (D q) m0 \<and>
      (\<forall>a\<in>set A. \<not> js_ge (D a) (D q)) \<and> (\<forall>b\<in>set B. \<not> js_gt (D b) (D q)))"
proof (induction X arbitrary: m idx rule: rev_induct)
  case Nil
  then show ?case by simp
next
  case (snoc p X)
  obtain m1 idx1 where r: "scan D X i (m0, idx0) = (m1, idx1)"
    by (cases "scan D X i (m0, idx0)")
  note IH = snoc.IH [OF r]
  show ?case
  proof (cases "js_gt (D p) m1")
    case True
    with snoc.prems r have res: "m = D p" "idx = int (i + length X)"
      by (simp_all add: scan_append)
    have "js_gt (D p) m0 \<and> (\<forall>a\<in>set X. \<not> js_ge (D a) (D p))"
      using IH
    proof (elim disjE exE conjE)
      assume "m1 = m0" "\<forall>a\<in>set X. \<not> js_gt (D a) m0"
      with True show ?thesis by (auto dest: js_not_ge_above)
    next
      fix A q B
      assume h: "X = A @ q # B" "m1 = D q" "js_gt (D q) m0"
        "\<forall>a\<in>set A. \<not> js_ge (D a) (D q)" "\<forall>b\<in>set B. \<not> js_gt (D b) (D q)"
      from True h(2) have pq: "js_gt (D p) (D q)" by simp
      from pq h(3) have "js_gt (D p) m0" by (rule js_gt_trans)
      moreover from pq h(4) have "\<forall>a\<in>set A. \<not> js_ge (D a) (D p)"
        by (auto dest: js_not_ge_trans)
      moreover from pq have "\<not> js_ge (D q) (D p)" by (rule js_gt_not_ge)
      moreover from pq h(5) have "\<forall>b\<in>set B. \<not> js_ge (D b) (D p)"
        by (auto dest: js_not_ge_above)
      ultimately show ?thesis by (auto simp: h(1))
    qed
    with res have "X @ [p] = X @ p # [] \<and> idx = int (i + length X) \<and> m = D p \<and> js_gt (D p) m0 \<and>
      (\<forall>a\<in>set X. \<not> js_ge (D a) (D p)) \<and> (\<forall>b\<in>set []. \<not> js_gt (D b) (D p))" by simp
    then show ?thesis by blast
  next
    case False
    with snoc.prems r have res: "m = m1" "idx = idx1"
      by (simp_all add: scan_append)
    from IH show ?thesis
    proof (elim disjE exE conjE)
      assume "m1 = m0" "idx1 = idx0" "\<forall>a\<in>set X. \<not> js_gt (D a) m0"
      with False res show ?thesis by simp
    next
      fix A q B
      assume h: "X = A @ q # B" "idx1 = int (i + length A)" "m1 = D q" "js_gt (D q) m0"
        "\<forall>a\<in>set A. \<not> js_ge (D a) (D q)" "\<forall>b\<in>set B. \<not> js_gt (D b) (D q)"
      with False res have "X @ [p] = A @ q # (B @ [p]) \<and> idx = int (i + length A) \<and> m = D q \<and>
        js_gt (D q) m0 \<and> (\<forall>a\<in>set A. \<not> js_ge (D a) (D q)) \<and>
        (\<forall>b\<in>set (B @ [p]). \<not> js_gt (D b) (D q))" by simp
      then show ?thesis by blast
    qed
  qed
qed

lemma list_emb_set_subset: "subseq xs ys \<Longrightarrow> set xs \<subseteq> set ys"
  by (auto dest: list_emb_set)


lemma findFurthestPoint_found:
  assumes "findFurthestPoint (s # X @ [e]) epsilon = k" "k \<noteq> - 1"
  shows "\<exists>A q B. X = A @ q # B \<and> k = int (length A) + 1 \<and>
           js_gt (perpendicularDistance q s e) (Fin (- 1)) \<and>
           js_gt (perpendicularDistance q s e) epsilon \<and>
           (\<forall>a\<in>set A. \<not> js_ge (perpendicularDistance a s e) (perpendicularDistance q s e)) \<and>
           (\<forall>b\<in>set B. \<not> js_gt (perpendicularDistance b s e) (perpendicularDistance q s e))"
proof -
  let ?D = "\<lambda>p. perpendicularDistance p s e"
  obtain m idx where r: "scan ?D X 1 (Fin (- 1), - 1) = (m, idx)"
    by (cases "scan ?D X 1 (Fin (- 1), - 1)")
  from assms r have gt: "js_gt m epsilon" and k: "idx = k"
    by (auto simp: findFurthestPoint_scan split: if_splits)
  from scan_sound [OF r] k assms(2) obtain A q B where
    "X = A @ q # B" "idx = int (1 + length A)" "m = ?D q" "js_gt (?D q) (Fin (- 1))"
    "\<forall>a\<in>set A. \<not> js_ge (?D a) (?D q)" "\<forall>b\<in>set B. \<not> js_gt (?D b) (?D q)"
    by auto
  with gt k have "X = A @ q # B \<and> k = int (length A) + 1 \<and>
           js_gt (?D q) (Fin (- 1)) \<and> js_gt (?D q) epsilon \<and>
           (\<forall>a\<in>set A. \<not> js_ge (?D a) (?D q)) \<and> (\<forall>b\<in>set B. \<not> js_gt (?D b) (?D q))"
    by simp
  then show ?thesis by blast
qed

lemma findFurthestPoint_at:
  assumes "js_gt (perpendicularDistance q s e) (Fin (- 1))"
    and "js_gt (perpendicularDistance q s e) epsilon"
    and "\<forall>a\<in>set A. \<not> js_ge (perpendicularDistance a s e) (perpendicularDistance q s e)"
    and "\<forall>b\<in>set B. \<not> js_gt (perpendicularDistance b s e) (perpendicularDistance q s e)"
  shows "findFurthestPoint (s # A @ q # B @ [e]) epsilon = int (length A) + 1"
proof -
  have "findFurthestPoint (s # (A @ q # B) @ [e]) epsilon = int (length A) + 1"
    unfolding findFurthestPoint_scan
    using scan_found [of "\<lambda>p. perpendicularDistance p s e", OF assms(1,3,4), of 1 "- 1"] assms(2)
    by simp
  then show ?thesis by simp
qed

lemma findFurthestPoint_mono:
  assumes "js_le e1 e2" "findFurthestPoint path e2 \<noteq> - 1"
  shows "findFurthestPoint path e1 = findFurthestPoint path e2"
proof -
  obtain m idx where r: "findFurthestLoop path 1 (Fin (- 1)) (- 1) = (m, idx)"
    by (cases "findFurthestLoop path 1 (Fin (- 1)) (- 1)")
  from assms(2) r have "js_gt m e2" by (auto simp: findFurthestPoint_def split: if_splits)
  then have "js_gt m e1" using assms(1) by (rule js_gt_le_trans)
  with \<open>js_gt m e2\<close> r show ?thesis by (simp add: findFurthestPoint_def)
qed

lemma douglasPeucker_mono_ends:
  "js_le e1 e2 \<Longrightarrow>
   length (douglasPeucker (s # X @ [e]) e2) \<le> length (douglasPeucker (s # X @ [e]) e1)"
proof (induction "length X" arbitrary: s X e rule: less_induct)
  case less
  show ?case
  proof (cases "X = []")
    case True
    then show ?thesis by (simp add: douglasPeucker_short)
  next
    case False
    let ?k = "findFurthestPoint (s # X @ [e]) e2"
    show ?thesis
    proof (cases "?k = - 1")
      case True
      from douglasPeucker_shape [of s X e e1] obtain M
        where "douglasPeucker (s # X @ [e]) e1 = s # M @ [e]" by blast
      with True False show ?thesis by (simp add: douglasPeucker_collapse)
    next
      case k: False
      from findFurthestPoint_mono [OF less.prems k]
      have k1: "findFurthestPoint (s # X @ [e]) e1 = ?k" .
      from findFurthestPoint_found [OF refl k] obtain A q B
        where X: "X = A @ q # B" and A: "?k = int (length A) + 1" by blast
      from less.hyps [of A s q] X less.prems
      have L: "length (douglasPeucker (s # A @ [q]) e2) \<le> length (douglasPeucker (s # A @ [q]) e1)"
        by simp
      from less.hyps [of B q e] X less.prems
      have R: "length (douglasPeucker (q # B @ [e]) e2) \<le> length (douglasPeucker (q # B @ [e]) e1)"
        by simp
      from A have s2: "findFurthestPoint (s # A @ q # B @ [e]) e2 = int (length A) + 1"
        by (simp add: X)
      from A k1 have s1: "findFurthestPoint (s # A @ q # B @ [e]) e1 = int (length A) + 1"
        by (simp add: X)
      show ?thesis
        using L R by (simp add: X douglasPeucker_split [OF s1] douglasPeucker_split [OF s2])
    qed
  qed
qed

text \<open>
  Claim C3. For a fixed path and tolerances \<open>0 \<le> e1 \<le> e2\<close>, the result for \<open>e1\<close> is at
  least as long as the result for \<open>e2\<close>.
\<close>

theorem douglasPeucker_monotone:
  assumes "js_le (Fin 0) e1" "js_le e1 e2"
  shows "length (douglasPeucker path e2) \<le> length (douglasPeucker path e1)"
proof (cases "2 \<le> length path")
  case False
  then show ?thesis by (simp add: douglasPeucker_short)
next
  case True
  from path_ends [OF this] obtain s X e where "path = s # X @ [e]" by blast
  with assms(2) show ?thesis by (simp add: douglasPeucker_mono_ends)
qed

theorem douglasPeucker_monotone_witness:
  "js_le (Fin 0) (Fin (1/10)) \<and> js_le (Fin (1/10)) (Fin 2) \<and>
   length (douglasPeucker
     [\<lparr>x = Fin 0, y = Fin 0\<rparr>, \<lparr>x = Fin 1, y = Fin 1\<rparr>, \<lparr>x = Fin 2, y = Fin 0\<rparr>] (Fin 2))
   \<le> length (douglasPeucker
     [\<lparr>x = Fin 0, y = Fin 0\<rparr>, \<lparr>x = Fin 1, y = Fin 1\<rparr>, \<lparr>x = Fin 2, y = Fin 0\<rparr>] (Fin (1/10)))"
  using douglasPeucker_monotone [of "Fin (1/10)" "Fin 2"
    "[\<lparr>x = Fin 0, y = Fin 0\<rparr>, \<lparr>x = Fin 1, y = Fin 1\<rparr>, \<lparr>x = Fin 2, y = Fin 0\<rparr>]"]
  by simp

lemma douglasPeucker_idem_ends:
  "douglasPeucker (douglasPeucker (s # X @ [e]) epsilon) epsilon = douglasPeucker (s # X @ [e]) epsilon"
proof (induction "length X" arbitrary: s X e rule: less_induct)
  case less
  show ?case
  proof (cases "X = []")
    case True
    then show ?thesis by (simp add: douglasPeucker_short)
  next
    case False
    let ?k = "findFurthestPoint (s # X @ [e]) epsilon"
    show ?thesis
    proof (cases "?k = - 1")
      case True
      with False show ?thesis by (simp add: douglasPeucker_collapse douglasPeucker_short)
    next
      case k: False
      let ?D = "\<lambda>p. perpendicularDistance p s e"
      from findFurthestPoint_found [OF refl k] obtain A q B
        where X: "X = A @ q # B" and A: "?k = int (length A) + 1"
          and q1: "js_gt (?D q) (Fin (- 1))" and q2: "js_gt (?D q) epsilon"
          and below_A: "\<forall>a\<in>set A. \<not> js_ge (?D a) (?D q)"
          and below_B: "\<forall>b\<in>set B. \<not> js_gt (?D b) (?D q)" by blast
      from douglasPeucker_shape [of s A q epsilon] obtain M1
        where M1: "douglasPeucker (s # A @ [q]) epsilon = s # M1 @ [q]" "subseq M1 A" by blast
      from douglasPeucker_shape [of q B e epsilon] obtain M2
        where M2: "douglasPeucker (q # B @ [e]) epsilon = q # M2 @ [e]" "subseq M2 B" by blast
      from A have sp: "findFurthestPoint (s # A @ q # B @ [e]) epsilon = int (length A) + 1"
        by (simp add: X)
      have res: "douglasPeucker (s # X @ [e]) epsilon = s # M1 @ q # M2 @ [e]"
        using douglasPeucker_split [OF sp] M1(1) M2(1) by (simp add: X butlast_append)
      from M1(2) have "set M1 \<subseteq> set A" by (rule list_emb_set_subset)
      with below_A have bA: "\<forall>a\<in>set M1. \<not> js_ge (?D a) (?D q)" by blast
      from M2(2) have "set M2 \<subseteq> set B" by (rule list_emb_set_subset)
      with below_B have bB: "\<forall>b\<in>set M2. \<not> js_gt (?D b) (?D q)" by blast
      from findFurthestPoint_at [OF q1 q2 bA bB]
      have sp': "findFurthestPoint (s # M1 @ q # M2 @ [e]) epsilon = int (length M1) + 1" .
      have IL: "douglasPeucker (s # M1 @ [q]) epsilon = s # M1 @ [q]"
        using less.hyps [of A s q] M1(1) by (simp add: X)
      have IR: "douglasPeucker (q # M2 @ [e]) epsilon = q # M2 @ [e]"
        using less.hyps [of B q e] M2(1) by (simp add: X)
      show ?thesis
        unfolding res using douglasPeucker_split [OF sp'] IL IR by (simp add: butlast_append)
    qed
  qed
qed

text \<open>
  Claim C4. Simplifying a second time with the same tolerance changes nothing: the result of
  \<open>douglasPeucker\<close> is a fixed point of \<open>douglasPeucker\<close>, element for element, for every
  path and every tolerance.
\<close>

theorem douglasPeucker_idempotent:
  "douglasPeucker (douglasPeucker path epsilon) epsilon = douglasPeucker path epsilon"
proof (cases "2 \<le> length path")
  case False
  then show ?thesis by (simp add: douglasPeucker_short)
next
  case True
  from path_ends [OF this] obtain s X e where "path = s # X @ [e]" by blast
  then show ?thesis by (simp add: douglasPeucker_idem_ends)
qed

section \<open>Properties of the scalar utilities and of the vector operations\<close>

lemma js_mod_range_nonneg:
  assumes "0 < b" "0 \<le> a"
  shows "0 \<le> a - b * of_int (js_trunc (a / b))" "a - b * of_int (js_trunc (a / b)) < b"
proof -
  from assms have t: "js_trunc (a / b) = \<lfloor>a / b\<rfloor>" by (simp add: js_trunc_def)
  have "b * of_int \<lfloor>a / b\<rfloor> \<le> b * (a / b)"
    using assms(1) by (intro mult_left_mono) simp_all
  then have "b * of_int \<lfloor>a / b\<rfloor> \<le> a" using assms(1) by simp
  then show "0 \<le> a - b * of_int (js_trunc (a / b))" by (simp add: t)
  have "a / b < of_int \<lfloor>a / b\<rfloor> + 1" by linarith
  then have "b * (a / b) < b * (of_int \<lfloor>a / b\<rfloor> + 1)"
    using assms(1) by (intro mult_strict_left_mono) simp_all
  then have "a < b * (of_int \<lfloor>a / b\<rfloor> + 1)" using assms(1) by simp
  then show "a - b * of_int (js_trunc (a / b)) < b" by (simp add: t algebra_simps)
qed

lemma js_mod_range_neg:
  assumes "0 < b" "a < 0"
  shows "- b < a - b * of_int (js_trunc (a / b))" "a - b * of_int (js_trunc (a / b)) \<le> 0"
proof -
  from assms have "a / b < 0" by (simp add: divide_neg_pos)
  then have t: "js_trunc (a / b) = \<lceil>a / b\<rceil>" by (simp add: js_trunc_def)
  have "b * (a / b) \<le> b * of_int \<lceil>a / b\<rceil>"
    using assms(1) by (intro mult_left_mono) simp_all
  then have "a \<le> b * of_int \<lceil>a / b\<rceil>" using assms(1) by simp
  then show "a - b * of_int (js_trunc (a / b)) \<le> 0" by (simp add: t)
  have "of_int \<lceil>a / b\<rceil> - 1 < a / b" by linarith
  then have "b * (of_int \<lceil>a / b\<rceil> - 1) < b * (a / b)"
    using assms(1) by (intro mult_strict_left_mono) simp_all
  then have "b * (of_int \<lceil>a / b\<rceil> - 1) < a" using assms(1) by simp
  then show "- b < a - b * of_int (js_trunc (a / b))" by (simp add: t algebra_simps)
qed

lemma degreesToRadiansNormalized_range:
  "\<exists>r. degreesToRadiansNormalized (Fin d) = Fin r \<and> 0 \<le> r \<and> r < 2 * pi"
proof -
  define a where "a = d * (pi / 180)"
  define b where "b = 2 * pi"
  define m where "m = a - b * of_int (js_trunc (a / b))"
  have b: "0 < b" by (simp add: b_def)
  have mul: "js_mul (Fin d) DEG_TO_RAD = Fin a" by (simp add: DEG_TO_RAD_def a_def)
  have md: "js_mod (Fin a) TWO_PI = Fin m"
    using b by (simp add: TWO_PI_def m_def b_def)
  have "degreesToRadiansNormalized (Fin d) =
      (if js_lt (Fin m) (Fin 0) then js_add (Fin m) TWO_PI else Fin m)"
    unfolding degreesToRadiansNormalized_def Let_def mul md ..
  then have res: "degreesToRadiansNormalized (Fin d) = (if m < 0 then Fin (m + b) else Fin m)"
    by (simp add: TWO_PI_def b_def)
  have "(if m < 0 then m + b else m) \<in> {0..<b}"
  proof (cases "0 \<le> a")
    case True
    from js_mod_range_nonneg [OF b True] show ?thesis by (simp add: m_def)
  next
    case False
    then have "a < 0" by simp
    from js_mod_range_neg [OF b this] show ?thesis by (auto simp: m_def)
  qed
  with res show ?thesis by (auto simp: b_def)
qed

lemma small_angle: "- (1 / 2) < - (1 / 1000) * (180 / pi) \<and> - (1 / 1000) * (180 / pi) < 0"
proof -
  have "2 \<le> pi" by (rule pi_ge_two)
  then have "9 / 50 < pi / 2" by simp
  then have "9 / 50 / pi < 1 / 2" by (simp add: pos_divide_less_eq)
  then show ?thesis by simp
qed

text \<open>
  Claim C5. The claim puts the result of \<open>radiansToDegreesNormalized\<close> in \<open>[0, 360)\<close>.
  The code rounds after it has wrapped, so an angle just below a full turn is rounded up to
  \<open>360\<close>: at \<open>-0.001\<close> radians the function returns \<open>360\<close>, which is not below \<open>360\<close>.
\<close>

theorem radiansToDegreesNormalized_reaches_360:
  "radiansToDegreesNormalized (Fin (- (1 / 1000))) = Fin 360 \<and>
   \<not> js_lt (radiansToDegreesNormalized (Fin (- (1 / 1000)))) (Fin 360)"
proof -
  define d where "d = - (1 / 1000) * (180 / pi)"
  from small_angle have d: "- (1 / 2) < d" "d < 0" by (simp_all add: d_def)
  have "- 1 < d / 360" "d / 360 < 0" using d by simp_all
  then have "\<lceil>d / 360\<rceil> = 0" by linarith
  with d have t: "js_trunc (d / 360) = 0" by (simp add: js_trunc_def)
  have deg: "js_mul (Fin (- (1 / 1000))) (js_div (Fin 180) Math_PI) = Fin d"
    by (simp add: Math_PI_def d_def)
  have md: "js_mod (Fin d) (Fin 360) = Fin d" by (simp add: t)
  have "\<lfloor>d + 360 + 1 / 2\<rfloor> = 360" using d by linarith
  then have rd: "Math_round (Fin (d + 360)) = Fin 360" by simp
  have "radiansToDegreesNormalized (Fin (- (1 / 1000))) = Fin 360"
    unfolding radiansToDegreesNormalized_def Let_def deg md using d(2) rd by simp
  then show ?thesis by simp
qed

lemma mset_insertSorted: "mset (insertSorted c a bs) = add_mset a (mset bs)"
  by (induction bs) simp_all

lemma mset_insertionSort: "mset (insertionSort c xs) = mset xs"
  by (induction xs) (simp_all add: insertionSort_def mset_insertSorted)

lemma set_insertSorted: "set (insertSorted c a bs) = insert a (set bs)"
  by (induction bs) auto

lemma set_insertionSort: "set (insertionSort c xs) = set xs"
  by (induction xs) (simp_all add: insertionSort_def set_insertSorted)

lemma js_lt_not_gt: "js_lt v (Fin 0) \<Longrightarrow> \<not> js_gt v (Fin 0)"
  by (cases v) (simp_all add: js_gt_def)

lemma sorted_insertSorted:
  assumes c: "consistentComparator c S" and a: "a \<in> S" and bs: "set bs \<subseteq> S"
    and s: "sorted_wrt (\<lambda>a b. \<not> js_gt (SortCompare c a b) (Fin 0)) bs"
  shows "sorted_wrt (\<lambda>a b. \<not> js_gt (SortCompare c a b) (Fin 0)) (insertSorted c a bs)"
  using bs s
proof (induction bs)
  case Nil
  then show ?case by simp
next
  case (Cons b bs)
  from Cons.prems have b: "b \<in> S" and bsS: "set bs \<subseteq> S"
    and bb: "\<forall>u\<in>set bs. \<not> js_gt (SortCompare c b u) (Fin 0)"
    and sb: "sorted_wrt (\<lambda>a b. \<not> js_gt (SortCompare c a b) (Fin 0)) bs"
    by simp_all
  show ?case
  proof (cases "js_gt (SortCompare c a b) (Fin 0)")
    case True
    with c a b have "js_lt (SortCompare c b a) (Fin 0)"
      by (simp add: consistentComparator_def)
    then have "\<not> js_gt (SortCompare c b a) (Fin 0)" by (rule js_lt_not_gt)
    with True bb Cons.IH [OF bsS sb] show ?thesis
      by (simp add: set_insertSorted)
  next
    case False
    have "\<not> js_gt (SortCompare c a u) (Fin 0)" if u: "u \<in> set bs" for u
    proof -
      from u bsS have "u \<in> S" by blast
      moreover from bb u have "\<not> js_gt (SortCompare c b u) (Fin 0)" by blast
      ultimately show ?thesis
        using c a b False unfolding consistentComparator_def by blast
    qed
    with False Cons.prems show ?thesis by simp
  qed
qed

lemma conformingSort_insertionSort: "conformingSort insertionSort"
  unfolding conformingSort_def
proof (intro allI conjI impI)
  fix c xs
  show "mset (insertionSort c xs) = mset xs" by (rule mset_insertionSort)
  assume c: "consistentComparator c (set xs)"
  have "set ys \<subseteq> set xs \<Longrightarrow>
      sorted_wrt (\<lambda>a b. \<not> js_gt (SortCompare c a b) (Fin 0)) (insertionSort c ys)" for ys
  proof (induction ys)
    case Nil
    then show ?case by (simp add: insertionSort_def)
  next
    case (Cons a ys)
    then have "sorted_wrt (\<lambda>a b. \<not> js_gt (SortCompare c a b) (Fin 0))
        (insertSorted c a (insertionSort c ys))"
      by (intro sorted_insertSorted [OF c]) (simp_all add: set_insertionSort)
    then show ?case by (simp add: insertionSort_def)
  qed
  then show "sorted_wrt (\<lambda>a b. \<not> js_gt (SortCompare c a b) (Fin 0)) (insertionSort c xs)"
    by simp
qed

lemma SortCompare_js_sub:
  "a \<noteq> NaN \<Longrightarrow> b \<noteq> NaN \<Longrightarrow>
   js_gt (SortCompare (\<lambda>a b. js_sub a b) a b) (Fin 0) \<longleftrightarrow> rank b < rank a"
  by (cases a; cases b; simp add: SortCompare_def js_sub_def js_gt_def less_prod_def)

lemma SortCompare_js_sub_lt:
  "a \<noteq> NaN \<Longrightarrow> b \<noteq> NaN \<Longrightarrow>
   js_lt (SortCompare (\<lambda>a b. js_sub a b) a b) (Fin 0) \<longleftrightarrow> rank a < rank b"
  by (cases a; cases b; simp add: SortCompare_def js_sub_def less_prod_def)

lemma consistentComparator_js_sub:
  assumes "NaN \<notin> S"
  shows "consistentComparator (\<lambda>a b. js_sub a b) S"
proof -
  have n: "a \<noteq> NaN" if "a \<in> S" for a using that assms by auto
  show ?thesis
    unfolding consistentComparator_def
  proof (intro conjI ballI impI)
    fix a b assume "a \<in> S" "b \<in> S"
    then show "js_gt (SortCompare (\<lambda>a b. js_sub a b) a b) (Fin 0) \<longleftrightarrow>
        js_lt (SortCompare (\<lambda>a b. js_sub a b) b a) (Fin 0)"
      by (simp add: SortCompare_js_sub SortCompare_js_sub_lt n)
  next
    fix a b c assume "a \<in> S" "b \<in> S" "c \<in> S"
      and "\<not> js_gt (SortCompare (\<lambda>a b. js_sub a b) a b) (Fin 0) \<and>
           \<not> js_gt (SortCompare (\<lambda>a b. js_sub a b) b c) (Fin 0)"
    then show "\<not> js_gt (SortCompare (\<lambda>a b. js_sub a b) a c) (Fin 0)"
      by (auto simp: SortCompare_js_sub n not_less intro: order_trans)
  qed
qed

lemma not_sorted_with_NaN:
  "sorted_wrt js_le ys \<Longrightarrow> NaN \<in> set ys \<Longrightarrow> length ys \<le> 1"
proof (induction ys)
  case Nil
  then show ?case by simp
next
  case (Cons a ys)
  show ?case
  proof (cases "a = NaN")
    case True
    with Cons.prems(1) have "ys = []" by (cases ys) auto
    then show ?thesis by simp
  next
    case False
    with Cons.prems have "NaN \<in> set ys" "\<forall>u\<in>set ys. js_le a u" by auto
    then have "js_le a NaN" by blast
    then show ?thesis by simp
  qed
qed

text \<open>
  Claim C10. \<open>median\<close> sorts its argument in place, whatever it returns: after the call the
  caller's array is a permutation of what it held before, rearranged by the sort of the engine
  with the comparator \<open>a - b\<close>. When no entry is NaN that comparator is a consistent ordering
  and the array is in ascending numeric order. This holds with every sort that conforms. The
  claim says ascending for every input array; that part fails when an entry is NaN, as the
  array \<open>[2, NaN, 1]\<close> below shows.
\<close>

theorem median_rearranges_argument:
  assumes "conformingSort arraySort"
  shows "mset (snd (median arraySort values)) = mset values \<and>
         (NaN \<notin> set values \<longrightarrow> sorted_wrt js_le (snd (median arraySort values)))"
proof (cases "values = []")
  case True
  then show ?thesis by (simp add: median_def)
next
  case False
  let ?r = "arraySort (\<lambda>a b. js_sub a b) values"
  from False have s: "snd (median arraySort values) = ?r"
    by (simp add: median_def Let_def)
  from assms have m: "mset ?r = mset values" by (simp add: conformingSort_def)
  then have set: "set ?r = set values" by (rule mset_eq_setD)
  have "sorted_wrt js_le ?r" if n: "NaN \<notin> set values"
  proof -
    from n have "consistentComparator (\<lambda>a b. js_sub a b) (set values)"
      by (rule consistentComparator_js_sub)
    with assms have "sorted_wrt (\<lambda>a b. \<not> js_gt (SortCompare (\<lambda>a b. js_sub a b) a b) (Fin 0)) ?r"
      by (simp add: conformingSort_def)
    moreover have "js_le a b"
      if "a \<in> set ?r" "b \<in> set ?r" "\<not> js_gt (SortCompare (\<lambda>a b. js_sub a b) a b) (Fin 0)" for a b
    proof -
      from that(1,2) set n have ab: "a \<noteq> NaN" "b \<noteq> NaN" by auto
      with that(3) show ?thesis by (simp add: SortCompare_js_sub js_le_rank not_less)
    qed
    ultimately show ?thesis by (rule sorted_wrt_mono_rel [rotated]) blast
  qed
  with s m show ?thesis by simp
qed

theorem median_rearranges_argument_witness:
  "median insertionSort [Fin 3, Fin 1, Fin 2] = (Fin 2, [Fin 1, Fin 2, Fin 3]) \<and>
   mset (snd (median insertionSort [Fin 3, Fin 1, Fin 2])) = mset [Fin 3, Fin 1, Fin 2] \<and>
   sorted_wrt js_le (snd (median insertionSort [Fin 3, Fin 1, Fin 2]))"
  using median_rearranges_argument [OF conformingSort_insertionSort, of "[Fin 3, Fin 1, Fin 2]"]
  by (simp add: median_def insertionSort_def SortCompare_def js_sub_def js_gt_def Let_def)

text \<open>
  The array \<open>[2, NaN, 1]\<close>: every comparison with NaN gives NaN, which the sort reads as
  \<open>0\<close>, so the insertion sort leaves the array as it is, \<open>2\<close> before \<open>1\<close>. No sort
  could do better: no arrangement of these three entries is ascending, no number being below
  or equal to NaN and NaN below or equal to none.
\<close>

theorem median_NaN_counterexample:
  "snd (median insertionSort [Fin 2, NaN, Fin 1]) = [Fin 2, NaN, Fin 1] \<and>
   \<not> sorted_wrt js_le (snd (median insertionSort [Fin 2, NaN, Fin 1])) \<and>
   \<not> (\<exists>ys. mset ys = mset [Fin 2, NaN, Fin 1] \<and> sorted_wrt js_le ys)"
proof -
  have 1: "snd (median insertionSort [Fin 2, NaN, Fin 1]) = [Fin 2, NaN, Fin 1]"
    by (simp add: median_def insertionSort_def SortCompare_def js_sub_def js_gt_def Let_def)
  have 3: "\<not> (\<exists>ys. mset ys = mset [Fin 2, NaN, Fin 1] \<and> sorted_wrt js_le ys)"
  proof
    assume "\<exists>ys. mset ys = mset [Fin 2, NaN, Fin 1] \<and> sorted_wrt js_le ys"
    then obtain ys where ys: "mset ys = mset [Fin 2, NaN, Fin 1]" "sorted_wrt js_le ys" by blast
    from ys(1) have "set ys = set [Fin 2, NaN, Fin 1]" by (rule mset_eq_setD)
    then have "NaN \<in> set ys" by simp
    with ys(2) have "length ys \<le> 1" by (rule not_sorted_with_NaN)
    moreover from ys(1) have "length ys = length [Fin 2, NaN, Fin 1]" by (rule mset_eq_length)
    ultimately show False by simp
  qed
  from 1 3 show ?thesis by simp
qed

lemma foldl_Vector2_add:
  "foldl (\<lambda>acc vec. Vector2_add acc vec) a vs =
     \<lparr>x = foldl js_add (Point2.x a) (map Point2.x vs), y = foldl js_add (Point2.y a) (map Point2.y vs)\<rparr>"
  by (induction vs arbitrary: a) (simp_all add: Vector2_add_def)

text \<open>
  Claim C7. \<open>Vector2.divide\<close> throws exactly when the scalar is zero and otherwise returns
  the vector of the two quotients; \<open>Vector2.center\<close> throws exactly when the array is empty
  and otherwise returns the componentwise mean; \<open>median\<close> of the empty array returns \<open>0\<close>
  (and leaves the array empty; the sort is not called).
\<close>

theorem vector_scalar_error_policy:
  "((\<exists>e. Vector2_divide v scalar = Inl e) \<longleftrightarrow> scalar = Fin 0) \<and>
   (scalar \<noteq> Fin 0 \<longrightarrow>
      Vector2_divide v scalar = Inr \<lparr>x = js_div (Point2.x v) scalar, y = js_div (Point2.y v) scalar\<rparr>) \<and>
   ((\<exists>e. Vector2_center vectors = Inl e) \<longleftrightarrow> vectors = []) \<and>
   (vectors \<noteq> [] \<longrightarrow>
      Vector2_center vectors = Inr \<lparr>x = mean (map Point2.x vectors), y = mean (map Point2.y vectors)\<rparr>) \<and>
   median arraySort [] = (Fin 0, [])"
  by (auto simp: Vector2_divide_def Vector2_center_def js_eq_def mean_def median_def
      foldl_Vector2_add Let_def)

theorem vector_scalar_error_policy_witness:
  "Vector2_divide \<lparr>x = Fin 6, y = Fin 3\<rparr> (Fin 3) = Inr \<lparr>x = Fin 2, y = Fin 1\<rparr> \<and>
   Vector2_divide \<lparr>x = Fin 6, y = Fin 3\<rparr> (Fin 0) = Inl (Error ''Cannot divide by zero'') \<and>
   Vector2_center [\<lparr>x = Fin 1, y = Fin 2\<rparr>, \<lparr>x = Fin 3, y = Fin 6\<rparr>] = Inr \<lparr>x = Fin 2, y = Fin 4\<rparr> \<and>
   Vector2_center [] = Inl (Error ''No vectors provided.'')"
  using vector_scalar_error_policy [of "\<lparr>x = Fin 6, y = Fin 3\<rparr>" "Fin 3"
      "[\<lparr>x = Fin 1, y = Fin 2\<rparr>, \<lparr>x = Fin 3, y = Fin 6\<rparr>]"]
    vector_scalar_error_policy [of "\<lparr>x = Fin 6, y = Fin 3\<rparr>" "Fin 0" "[]"]
  by (simp add: mean_def Vector2_divide_def Vector2_center_def js_eq_def)

lemma zeroExact_exactArithmetic: "zeroExact exactArithmetic"
  by (simp add: zeroExact_def exactArithmetic_def)

lemma Vector2_length_zero:
  "zeroExact fp \<Longrightarrow> Vector2_length fp \<lparr>x = Fin 0, y = Fin 0\<rparr> = Fin 0"
  by (simp add: Vector2_length_def zeroExact_def)

text \<open>
  Claim C6. On the zero vector \<open>Vector2.normalize\<close> returns a reference to a new object, the
  vector \<open>(0, 0)\<close>, and leaves the objects of the store as they are; it never returns its
  receiver. On the zero vector \<open>Vector3.normalize\<close> returns the reference it was called on
  and allocates nothing. On any vector, the branch taken is decided by the length as it is
  computed: \<open>Vector2.normalize\<close> returns a new \<open>(0, 0)\<close> when the computed length is
  \<^verbatim>\<open>=== 0\<close> and otherwise a new vector of the components divided by the computed length;
  \<open>Vector3.normalize\<close> returns a new vector, the receiver scaled by \<open>1 / length\<close>, when the
  computed length is \<^verbatim>\<open>> 0\<close> and otherwise its receiver. The functions have no error
  result. This holds in every arithmetic, rounding or not. The claim says that every vector
  other than the zero vector is returned scaled; that part fails: a NaN component makes the
  length NaN, and squares that underflow make it \<open>0\<close>, as the examples below show.
\<close>

theorem normalize_conventions:
  "(zeroExact fp \<and> store2 ! this2 = \<lparr>x = Fin 0, y = Fin 0\<rparr> \<longrightarrow>
      Vector2_normalize fp this2 store2 = (length store2, store2 @ [\<lparr>x = Fin 0, y = Fin 0\<rparr>])) \<and>
   (this2 < length store2 \<longrightarrow> fst (Vector2_normalize fp this2 store2) \<noteq> this2) \<and>
   (zeroExact fp \<and> store3 ! this3 = \<lparr>x = Fin 0, y = Fin 0, z = Fin 0\<rparr> \<longrightarrow>
      Vector3_normalize fp this3 store3 = (this3, store3)) \<and>
   (js_eq (Vector2_length fp (store2 ! this2)) (Fin 0) \<longrightarrow>
      Vector2_normalize fp this2 store2 = (length store2, store2 @ [\<lparr>x = Fin 0, y = Fin 0\<rparr>])) \<and>
   (\<not> js_eq (Vector2_length fp (store2 ! this2)) (Fin 0) \<longrightarrow>
      Vector2_normalize fp this2 store2 =
        (length store2,
         store2 @ [\<lparr>x = fp_div fp (Point2.x (store2 ! this2)) (Vector2_length fp (store2 ! this2)),
                     y = fp_div fp (Point2.y (store2 ! this2)) (Vector2_length fp (store2 ! this2))\<rparr>])) \<and>
   (js_gt (fp_sqrt fp (fp_add fp (fp_add fp (fp_pow2 fp (Point2.x (store3 ! this3)))
                                            (fp_pow2 fp (Point2.y (store3 ! this3))))
                                 (fp_pow2 fp (Point3.z (store3 ! this3))))) (Fin 0) \<longrightarrow>
      Vector3_normalize fp this3 store3 =
        (length store3,
         store3 @ [Vector3_scale fp (store3 ! this3)
                     (fp_div fp (Fin 1)
                        (fp_sqrt fp (fp_add fp (fp_add fp (fp_pow2 fp (Point2.x (store3 ! this3)))
                                                          (fp_pow2 fp (Point2.y (store3 ! this3))))
                                               (fp_pow2 fp (Point3.z (store3 ! this3))))))])) \<and>
   (\<not> js_gt (fp_sqrt fp (fp_add fp (fp_add fp (fp_pow2 fp (Point2.x (store3 ! this3)))
                                              (fp_pow2 fp (Point2.y (store3 ! this3))))
                                   (fp_pow2 fp (Point3.z (store3 ! this3))))) (Fin 0) \<longrightarrow>
      Vector3_normalize fp this3 store3 = (this3, store3))"
proof (intro conjI impI)
  assume "zeroExact fp \<and> store2 ! this2 = \<lparr>x = Fin 0, y = Fin 0\<rparr>"
  then show "Vector2_normalize fp this2 store2 = (length store2, store2 @ [\<lparr>x = Fin 0, y = Fin 0\<rparr>])"
    by (simp add: Vector2_normalize_def Vector2_length_zero js_eq_def new_def Let_def)
next
  assume "this2 < length store2"
  then show "fst (Vector2_normalize fp this2 store2) \<noteq> this2"
    by (simp add: Vector2_normalize_def new_def Let_def)
next
  assume "zeroExact fp \<and> store3 ! this3 = \<lparr>x = Fin 0, y = Fin 0, z = Fin 0\<rparr>"
  then show "Vector3_normalize fp this3 store3 = (this3, store3)"
    by (simp add: Vector3_normalize_def zeroExact_def js_gt_def Let_def)
next
  assume "js_eq (Vector2_length fp (store2 ! this2)) (Fin 0)"
  then show "Vector2_normalize fp this2 store2 = (length store2, store2 @ [\<lparr>x = Fin 0, y = Fin 0\<rparr>])"
    by (simp add: Vector2_normalize_def new_def Let_def)
next
  assume "\<not> js_eq (Vector2_length fp (store2 ! this2)) (Fin 0)"
  then show "Vector2_normalize fp this2 store2 =
      (length store2,
       store2 @ [\<lparr>x = fp_div fp (Point2.x (store2 ! this2)) (Vector2_length fp (store2 ! this2)),
                   y = fp_div fp (Point2.y (store2 ! this2)) (Vector2_length fp (store2 ! this2))\<rparr>])"
    by (simp add: Vector2_normalize_def new_def Let_def)
next
  let ?len = "fp_sqrt fp (fp_add fp (fp_add fp (fp_pow2 fp (Point2.x (store3 ! this3)))
                (fp_pow2 fp (Point2.y (store3 ! this3)))) (fp_pow2 fp (Point3.z (store3 ! this3))))"
  assume "js_gt ?len (Fin 0)"
  then show "Vector3_normalize fp this3 store3 =
      (length store3, store3 @ [Vector3_scale fp (store3 ! this3) (fp_div fp (Fin 1) ?len)])"
    by (simp add: Vector3_normalize_def new_def Let_def)
next
  let ?len = "fp_sqrt fp (fp_add fp (fp_add fp (fp_pow2 fp (Point2.x (store3 ! this3)))
                (fp_pow2 fp (Point2.y (store3 ! this3)))) (fp_pow2 fp (Point3.z (store3 ! this3))))"
  assume "\<not> js_gt ?len (Fin 0)"
  then show "Vector3_normalize fp this3 store3 = (this3, store3)"
    by (simp add: Vector3_normalize_def Let_def)
qed

theorem normalize_conventions_witness:
  "Vector2_normalize exactArithmetic 0 [\<lparr>x = Fin 0, y = Fin 0\<rparr>] =
     (1, [\<lparr>x = Fin 0, y = Fin 0\<rparr>, \<lparr>x = Fin 0, y = Fin 0\<rparr>]) \<and>
   Vector3_normalize exactArithmetic 0 [\<lparr>x = Fin 0, y = Fin 0, z = Fin 0\<rparr>] =
     (0, [\<lparr>x = Fin 0, y = Fin 0, z = Fin 0\<rparr>]) \<and>
   Vector2_normalize exactArithmetic 0 [\<lparr>x = Fin 0, y = Fin 2\<rparr>] =
     (1, [\<lparr>x = Fin 0, y = Fin 2\<rparr>, \<lparr>x = Fin 0, y = Fin 1\<rparr>]) \<and>
   Vector3_normalize exactArithmetic 0 [\<lparr>x = Fin 2, y = Fin 0, z = Fin 0\<rparr>] =
     (1, [\<lparr>x = Fin 2, y = Fin 0, z = Fin 0\<rparr>, \<lparr>x = Fin 1, y = Fin 0, z = Fin 0\<rparr>])"
proof -
  have s: "sqrt 4 = 2"
    using real_sqrt_abs [of 2] by simp
  show ?thesis
    using normalize_conventions [of exactArithmetic "[\<lparr>x = Fin 0, y = Fin 0\<rparr>]" 0
        "[\<lparr>x = Fin 0, y = Fin 0, z = Fin 0\<rparr>]" 0]
      normalize_conventions [of exactArithmetic "[\<lparr>x = Fin 0, y = Fin 2\<rparr>]" 0
        "[\<lparr>x = Fin 2, y = Fin 0, z = Fin 0\<rparr>]" 0]
    by (simp add: zeroExact_exactArithmetic Vector3_scale_def Vector2_length_def
        exactArithmetic_def js_eq_def js_gt_def s)
qed

text \<open>
  The vector \<open>(NaN, 1, 0)\<close> is not the zero vector. Its length is NaN, the test
  \<^verbatim>\<open>length > 0\<close> fails, and \<open>Vector3.normalize\<close> returns the receiver: no new object,
  nothing scaled.
\<close>

theorem Vector3_normalize_NaN_counterexample:
  "\<lparr>x = NaN, y = Fin 1, z = Fin 0\<rparr> \<noteq> \<lparr>x = Fin 0, y = Fin 0, z = Fin 0\<rparr> \<and>
   Vector3_normalize exactArithmetic 0 [\<lparr>x = NaN, y = Fin 1, z = Fin 0\<rparr>] =
     (0, [\<lparr>x = NaN, y = Fin 1, z = Fin 0\<rparr>]) \<and>
   Vector3_normalize exactArithmetic 0 [\<lparr>x = NaN, y = Fin 1, z = Fin 0\<rparr>] \<noteq>
     new (Vector3_scale exactArithmetic \<lparr>x = NaN, y = Fin 1, z = Fin 0\<rparr> (js_div (Fin 1) NaN))
       [\<lparr>x = NaN, y = Fin 1, z = Fin 0\<rparr>]"
  by (simp add: Vector3_normalize_def exactArithmetic_def new_def Let_def)

lemma tiny_square: "((1::real) / 10 ^ 200) ^ 2 < 1 / 2 ^ 1075"
proof -
  have "(2::real) ^ 1075 < 10 ^ 400" by simp
  then have "(1::real) / 10 ^ 400 < 1 / 2 ^ 1075" by (simp add: field_simps)
  moreover have "((1::real) / 10 ^ 200) ^ 2 = 1 / 10 ^ 400"
    by (simp add: power_divide power_mult [symmetric])
  ultimately show ?thesis by (simp only:)
qed

text \<open>
  The vector \<open>(1e-200, 0)\<close> and the vector \<open>(1e-200, 0, 0)\<close> in an arithmetic that
  underflows: the square of \<open>1e-200\<close> is \<open>0\<close>, so is the length, and
  \<open>Vector2.normalize\<close> returns a new \<open>(0, 0)\<close> while \<open>Vector3.normalize\<close> returns its
  receiver, although neither vector is the zero vector.
\<close>

lemma normalize_underflow:
  "Vector2_normalize underflowArithmetic 0 [\<lparr>x = Fin (1 / 10 ^ 200), y = Fin 0\<rparr>] =
     (1, [\<lparr>x = Fin (1 / 10 ^ 200), y = Fin 0\<rparr>, \<lparr>x = Fin 0, y = Fin 0\<rparr>]) \<and>
   Vector3_normalize underflowArithmetic 0 [\<lparr>x = Fin (1 / 10 ^ 200), y = Fin 0, z = Fin 0\<rparr>] =
     (0, [\<lparr>x = Fin (1 / 10 ^ 200), y = Fin 0, z = Fin 0\<rparr>])"
proof -
  define t :: real where "t = 1 / 10 ^ 200"
  have sq: "t ^ 2 < 1 / 2 ^ 1075" unfolding t_def by (rule tiny_square)
  then have ab: "\<bar>t * t\<bar> < 1 / 2 ^ 1075" by (simp add: power2_eq_square)
  have m: "fp_mul underflowArithmetic (Fin t) (Fin t) = Fin 0"
    using ab by (simp add: underflowArithmetic_def del: abs_mult)
  have p: "fp_pow2 underflowArithmetic (Fin t) = Fin 0"
    using sq by (simp add: underflowArithmetic_def)
  have z: "fp_mul underflowArithmetic (Fin 0) (Fin 0) = Fin 0"
    "fp_pow2 underflowArithmetic (Fin 0) = Fin 0"
    "fp_add underflowArithmetic (Fin 0) (Fin 0) = Fin 0"
    "fp_sqrt underflowArithmetic (Fin 0) = Fin 0"
    by (simp_all add: underflowArithmetic_def exactArithmetic_def)
  have "Vector2_normalize underflowArithmetic 0 [\<lparr>x = Fin t, y = Fin 0\<rparr>] =
      (1, [\<lparr>x = Fin t, y = Fin 0\<rparr>, \<lparr>x = Fin 0, y = Fin 0\<rparr>])"
    by (simp add: Vector2_normalize_def Vector2_length_def m z js_eq_def new_def Let_def)
  moreover have "Vector3_normalize underflowArithmetic 0 [\<lparr>x = Fin t, y = Fin 0, z = Fin 0\<rparr>] =
      (0, [\<lparr>x = Fin t, y = Fin 0, z = Fin 0\<rparr>])"
    by (simp add: Vector3_normalize_def p z js_gt_def Let_def)
  ultimately show ?thesis unfolding t_def by simp
qed

section \<open>Properties of Vector2Set\<close>

lemma set_Map_set_keys: "set (map fst (Map_set k v m)) = insert k (set (map fst m))"
  by (induction m) auto

lemma distinct_Map_set: "distinct (map fst m) \<Longrightarrow> distinct (map fst (Map_set k v m))"
proof (induction m)
  case Nil
  then show ?case by simp
next
  case (Cons e m)
  then show ?case
    using set_Map_set_keys [of k v m] by (auto simp del: set_map)
qed

lemma set_Map_set: "set (Map_set k v m) \<subseteq> insert (k, v) (set m)"
  by (induction m) auto

lemma Vector2Set_inv_add:
  "Vector2Set_inv nts s \<Longrightarrow> Vector2Set_inv nts (Vector2Set_add nts v s)"
  unfolding Vector2Set_inv_def Vector2Set_add_def
  using set_Map_set [of "Vector2_toString nts v" v s]
  by (auto simp: distinct_Map_set)

lemma Vector2Set_inv_adds:
  "Vector2Set_inv nts s \<Longrightarrow> Vector2Set_inv nts (foldl (\<lambda>s v. Vector2Set_add nts v s) s vs)"
  by (induction vs arbitrary: s) (simp_all add: Vector2Set_inv_add)

lemma Vector2Set_inv_new: "Vector2Set_inv nts Vector2Set_new"
  by (simp add: Vector2Set_inv_def Vector2Set_new_def)

lemma toString_coordinates:
  "coordinates u = coordinates v \<Longrightarrow> Vector2_toString nts u = Vector2_toString nts v"
  by (simp add: coordinates_def Vector2_toString_def)

lemma Vector2Set_inv_distinct:
  assumes "Vector2Set_inv nts s"
  shows "distinct (map coordinates (Vector2Set_toArray s))"
proof -
  let ?g = "\<lambda>c. nts (fst c) @ '','' @ nts (snd c)"
  have eq: "map fst s = map ?g (map coordinates (map snd s))"
    using assms by (simp add: Vector2Set_inv_def coordinates_def Vector2_toString_def)
  from assms have "distinct (map fst s)" by (simp add: Vector2Set_inv_def)
  then have "distinct (map ?g (map coordinates (map snd s)))"
    by (simp only: eq)
  then have "distinct (map coordinates (map snd s))"
    unfolding distinct_map [of ?g "map coordinates (map snd s)"] by (rule conjunct1)
  then show ?thesis
    by (simp add: Vector2Set_toArray_def Vector2Set_values_def Map_values_def)
qed

lemma Map_set_present:
  "distinct (map fst m) \<Longrightarrow> k \<in> set (map fst m) \<Longrightarrow>
   Map_set k v m = map (\<lambda>e. if fst e = k then (k, v) else e) m"
proof (induction m)
  case Nil
  then show ?case by simp
next
  case (Cons e m)
  show ?case
  proof (cases "fst e = k")
    case True
    with Cons.prems have "k \<notin> fst ` set m" by simp
    then have "\<forall>e'\<in>set m. fst e' \<noteq> k" by (blast intro: imageI)
    then have "map (\<lambda>e. if fst e = k then (k, v) else e) m = m"
      by (induction m) auto
    with True show ?thesis by simp
  next
    case False
    with Cons show ?thesis by auto
  qed
qed

lemma Vector2Set_add_present:
  assumes inv: "Vector2Set_inv nts s"
    and w: "w \<in> set (Vector2Set_toArray s)" "coordinates w = coordinates v"
  shows "Vector2Set_toArray (Vector2Set_add nts v s) =
           map (\<lambda>u. if coordinates u = coordinates v then v else u) (Vector2Set_toArray s)"
proof -
  let ?k = "Vector2_toString nts v"
  from w(1) obtain kw where kw: "(kw, w) \<in> set s"
    by (auto simp: Vector2Set_toArray_def Vector2Set_values_def Map_values_def)
  with inv have "kw = Vector2_toString nts w"
    by (force simp: Vector2Set_inv_def)
  with w(2) have kwk: "kw = ?k"
    using toString_coordinates [of w v nts] by simp
  with kw have present: "?k \<in> set (map fst s)" by force
  from inv have d: "distinct (map fst s)" by (simp add: Vector2Set_inv_def)
  have same: "\<forall>e\<in>set s. fst e = ?k \<longleftrightarrow> coordinates (snd e) = coordinates v"
  proof
    fix e assume e: "e \<in> set s"
    show "fst e = ?k \<longleftrightarrow> coordinates (snd e) = coordinates v"
    proof
      assume "fst e = ?k"
      moreover from e have "(fst e, snd e) \<in> set s" by simp
      ultimately have "(kw, snd e) \<in> set s" using kwk by simp
      with d kw have "snd e = w" by (rule eq_key_imp_eq_value [symmetric])
      with w(2) show "coordinates (snd e) = coordinates v" by simp
    next
      assume "coordinates (snd e) = coordinates v"
      moreover from inv e have "fst e = Vector2_toString nts (snd e)"
        by (simp add: Vector2Set_inv_def)
      ultimately show "fst e = ?k"
        using toString_coordinates [of "snd e" v nts] by simp
    qed
  qed
  have "map snd (map (\<lambda>e. if fst e = ?k then (?k, v) else e) s) =
        map (\<lambda>u. if coordinates u = coordinates v then v else u) (map snd s)"
    using same by (induction s) auto
  then show ?thesis
    by (simp add: Vector2Set_toArray_def Vector2Set_values_def Map_values_def Vector2Set_add_def
        Map_set_present [OF d present])
qed

text \<open>
  Claim C8. After any sequence of \<open>add\<close> operations on a new set, no two stored vectors have
  the same coordinate pair. Adding a vector whose coordinates are those of a stored vector
  puts the new vector where the stored one stood and leaves every other entry and the size
  as they were. With the strings the language gives for 1, 2, 3 and 4, the set after
  \<open>add((1,2))\<close>, \<open>add((1,2))\<close>, \<open>add((3,4))\<close> has exactly 2 elements. The first two parts
  hold for every conversion of numbers to strings.
\<close>

theorem Vector2Set_one_per_coordinates:
  "distinct (map coordinates
     (Vector2Set_toArray (foldl (\<lambda>s v. Vector2Set_add nts v s) Vector2Set_new vs))) \<and>
   ((\<exists>w\<in>set (Vector2Set_toArray (foldl (\<lambda>s v. Vector2Set_add nts v s) Vector2Set_new vs)).
       coordinates w = coordinates v) \<longrightarrow>
    Vector2Set_toArray
      (Vector2Set_add nts v (foldl (\<lambda>s v. Vector2Set_add nts v s) Vector2Set_new vs)) =
    map (\<lambda>u. if coordinates u = coordinates v then v else u)
      (Vector2Set_toArray (foldl (\<lambda>s v. Vector2Set_add nts v s) Vector2Set_new vs))) \<and>
   (nts (Fin 1) = ''1'' \<and> nts (Fin 2) = ''2'' \<and> nts (Fin 3) = ''3'' \<and> nts (Fin 4) = ''4'' \<longrightarrow>
    length (Vector2Set_toArray
      (Vector2Set_add nts \<lparr>x = Fin 3, y = Fin 4\<rparr>
        (Vector2Set_add nts \<lparr>x = Fin 1, y = Fin 2\<rparr>
          (Vector2Set_add nts \<lparr>x = Fin 1, y = Fin 2\<rparr> Vector2Set_new)))) = 2)"
proof (intro conjI impI)
  let ?s = "foldl (\<lambda>s v. Vector2Set_add nts v s) Vector2Set_new vs"
  have inv: "Vector2Set_inv nts ?s"
    by (intro Vector2Set_inv_adds Vector2Set_inv_new)
  then show "distinct (map coordinates (Vector2Set_toArray ?s))"
    by (rule Vector2Set_inv_distinct)
  assume "\<exists>w\<in>set (Vector2Set_toArray ?s). coordinates w = coordinates v"
  then obtain w where "w \<in> set (Vector2Set_toArray ?s)" "coordinates w = coordinates v" by blast
  with inv show "Vector2Set_toArray (Vector2Set_add nts v ?s) =
      map (\<lambda>u. if coordinates u = coordinates v then v else u) (Vector2Set_toArray ?s)"
    by (rule Vector2Set_add_present)
next
  assume "nts (Fin 1) = ''1'' \<and> nts (Fin 2) = ''2'' \<and> nts (Fin 3) = ''3'' \<and> nts (Fin 4) = ''4''"
  then show "length (Vector2Set_toArray
      (Vector2Set_add nts \<lparr>x = Fin 3, y = Fin 4\<rparr>
        (Vector2Set_add nts \<lparr>x = Fin 1, y = Fin 2\<rparr>
          (Vector2Set_add nts \<lparr>x = Fin 1, y = Fin 2\<rparr> Vector2Set_new)))) = 2"
    by (simp add: Vector2Set_toArray_def Vector2Set_values_def Map_values_def Vector2Set_add_def
        Vector2Set_new_def Vector2_toString_def)
qed

theorem Vector2Set_one_per_coordinates_witness:
  "Vector2Set_toArray
     (Vector2Set_add
        (\<lambda>n. if n = Fin 1 then ''1'' else if n = Fin 2 then ''2'' else if n = Fin 3 then ''3''
              else if n = Fin 4 then ''4'' else ''0'')
        \<lparr>x = Fin 3, y = Fin 4\<rparr>
        (Vector2Set_add
           (\<lambda>n. if n = Fin 1 then ''1'' else if n = Fin 2 then ''2'' else if n = Fin 3 then ''3''
                 else if n = Fin 4 then ''4'' else ''0'')
           \<lparr>x = Fin 1, y = Fin 2\<rparr>
           (Vector2Set_add
              (\<lambda>n. if n = Fin 1 then ''1'' else if n = Fin 2 then ''2'' else if n = Fin 3 then ''3''
                    else if n = Fin 4 then ''4'' else ''0'')
              \<lparr>x = Fin 1, y = Fin 2\<rparr> Vector2Set_new)))
   = [\<lparr>x = Fin 1, y = Fin 2\<rparr>, \<lparr>x = Fin 3, y = Fin 4\<rparr>] \<and>
   length (Vector2Set_toArray
     (Vector2Set_add
        (\<lambda>n. if n = Fin 1 then ''1'' else if n = Fin 2 then ''2'' else if n = Fin 3 then ''3''
              else if n = Fin 4 then ''4'' else ''0'')
        \<lparr>x = Fin 3, y = Fin 4\<rparr>
        (Vector2Set_add
           (\<lambda>n. if n = Fin 1 then ''1'' else if n = Fin 2 then ''2'' else if n = Fin 3 then ''3''
                 else if n = Fin 4 then ''4'' else ''0'')
           \<lparr>x = Fin 1, y = Fin 2\<rparr>
           (Vector2Set_add
              (\<lambda>n. if n = Fin 1 then ''1'' else if n = Fin 2 then ''2'' else if n = Fin 3 then ''3''
                    else if n = Fin 4 then ''4'' else ''0'')
              \<lparr>x = Fin 1, y = Fin 2\<rparr> Vector2Set_new)))) = 2"
  using Vector2Set_one_per_coordinates
    [of "\<lambda>n. if n = Fin 1 then ''1'' else if n = Fin 2 then ''2'' else if n = Fin 3 then ''3''
              else if n = Fin 4 then ''4'' else ''0''"
        "[\<lparr>x = Fin 1, y = Fin 2\<rparr>]" "\<lparr>x = Fin 1, y = Fin 2\<rparr>"]
  by (simp add: Vector2Set_toArray_def Vector2Set_values_def Map_values_def Vector2Set_add_def
      Vector2Set_new_def Vector2_toString_def coordinates_def)

section \<open>Properties of PriorityQueue\<close>

lemma child_iff:
  "0 < (i::nat) \<Longrightarrow> (i - 1) div 2 = c \<longleftrightarrow> i = 2 * c + 1 \<or> i = 2 * c + 2"
  by presburger

lemma parent_less: "0 < (i::nat) \<Longrightarrow> (i - 1) div 2 < i"
  by presburger

lemma hole_up_stop:
  "hole_up f n c \<Longrightarrow> (0 < c \<longrightarrow> f ((c - 1) div 2) \<le> f c) \<Longrightarrow> heap_keys f n"
  unfolding hole_up_def heap_keys_def by metis

lemma hole_up_swap:
  assumes h: "hole_up f n c" and c: "0 < c" "c < n" and le: "f c \<le> f ((c - 1) div 2)"
  shows "hole_up (f(c := f ((c - 1) div 2), (c - 1) div 2 := f c)) n ((c - 1) div 2)"
proof -
  define p where "p = (c - 1) div 2"
  have pc: "p < c" using c(1) parent_less [of c] by (simp add: p_def)
  have cp: "(c - Suc 0) div 2 = p" by (simp add: p_def)
  let ?g = "f(c := f p, p := f c)"
  from h have h1: "\<And>i. 0 < i \<Longrightarrow> i < n \<Longrightarrow> i \<noteq> c \<Longrightarrow> f ((i - 1) div 2) \<le> f i"
    and h2: "\<And>i. 0 < i \<Longrightarrow> i < n \<Longrightarrow> (i - 1) div 2 = c \<Longrightarrow> f p \<le> f i"
    using c(1) by (auto simp: hole_up_def p_def)
  have "?g ((i - 1) div 2) \<le> ?g i" if i: "0 < i" "i < n" "i \<noteq> p" for i
  proof (cases "i = c")
    case True
    with pc le show ?thesis by (simp add: cp)
  next
    case False
    show ?thesis
    proof (cases "(i - 1) div 2 = c")
      case True
      with h2 [OF i(1,2)] False i(3) pc show ?thesis by simp
    next
      case nc: False
      show ?thesis
      proof (cases "(i - 1) div 2 = p")
        case True
        from h1 [OF i(1,2) False] True have "f p \<le> f i" by simp
        with le True False i(3) pc show ?thesis by (auto simp: cp)
      next
        case np: False
        with h1 [OF i(1,2) False] nc False i(3) show ?thesis by simp
      qed
    qed
  qed
  moreover have "?g ((p - 1) div 2) \<le> ?g i" if i: "0 < i" "i < n" "(i - 1) div 2 = p" "0 < p" for i
  proof -
    have pp: "(p - 1) div 2 < p" using i(4) by (rule parent_less)
    have pn: "p < n" using pc c(2) by simp
    from h1 [OF i(4) pn] pc have a: "f ((p - 1) div 2) \<le> f p" by simp
    have ip: "i \<noteq> p" using i(1,3) parent_less [of i] by auto
    show ?thesis
    proof (cases "i = c")
      case True
      with a pp pc show ?thesis by simp
    next
      case False
      from h1 [OF i(1,2) False] i(3) have "f p \<le> f i" by simp
      with a False ip pp pc show ?thesis by simp
    qed
  qed
  ultimately show ?thesis by (simp add: hole_up_def cp)
qed

lemma hole_down_stop:
  assumes "hole_down f n c"
    and "2 * c + 1 < n \<longrightarrow> f c \<le> f (2 * c + 1)"
    and "2 * c + 2 < n \<longrightarrow> f c \<le> f (2 * c + 2)"
  shows "heap_keys f n"
  unfolding heap_keys_def
proof (intro allI impI)
  fix i assume i: "0 < i \<and> i < n"
  show "f ((i - 1) div 2) \<le> f i"
  proof (cases "(i - 1) div 2 = c")
    case True
    with i have "i = 2 * c + 1 \<or> i = 2 * c + 2" using child_iff [of i c] by blast
    with assms(2,3) i True show ?thesis by auto
  next
    case False
    with assms(1) i show ?thesis by (simp add: hole_down_def)
  qed
qed

lemma hole_down_swap:
  assumes h: "hole_down f n c" and s: "s = 2 * c + 1 \<or> s = 2 * c + 2" "s < n"
    and le: "f s \<le> f c"
    and sib: "\<And>i. i = 2 * c + 1 \<or> i = 2 * c + 2 \<Longrightarrow> i < n \<Longrightarrow> f s \<le> f i"
  shows "hole_down (f(c := f s, s := f c)) n s"
proof -
  have ps: "(s - 1) div 2 = c" and cs: "c < s" and s0: "0 < s" using s(1) by auto
  let ?g = "f(c := f s, s := f c)"
  from h have h1: "\<And>i. 0 < i \<Longrightarrow> i < n \<Longrightarrow> (i - 1) div 2 \<noteq> c \<Longrightarrow> f ((i - 1) div 2) \<le> f i"
    and h2: "\<And>i. 0 < i \<Longrightarrow> i < n \<Longrightarrow> (i - 1) div 2 = c \<Longrightarrow> 0 < c \<Longrightarrow> f ((c - 1) div 2) \<le> f i"
    by (auto simp: hole_down_def)
  have "?g ((i - 1) div 2) \<le> ?g i" if i: "0 < i" "i < n" "(i - 1) div 2 \<noteq> s" for i
  proof (cases "i = s")
    case True
    with ps cs le show ?thesis by simp
  next
    case False
    show ?thesis
    proof (cases "i = c")
      case True
      with i(1) have c0: "0 < c" by simp
      have "(c - 1) div 2 < c" using c0 by (rule parent_less)
      moreover from h2 [OF s0 s(2) ps c0] have "f ((c - 1) div 2) \<le> f s" .
      ultimately show ?thesis using True cs by simp
    next
      case ic: False
      show ?thesis
      proof (cases "(i - 1) div 2 = c")
        case True
        with i(1) have "i = 2 * c + 1 \<or> i = 2 * c + 2" using child_iff [of i c] by blast
        from sib [OF this i(2)] True False ic cs show ?thesis by simp
      next
        case nc: False
        with h1 [OF i(1,2) nc] i(3) False ic show ?thesis by simp
      qed
    qed
  qed
  moreover have "?g ((s - 1) div 2) \<le> ?g i" if i: "0 < i" "i < n" "(i - 1) div 2 = s" for i
  proof -
    have "s < i" using i(1,3) parent_less [of i] by simp
    with cs have "i \<noteq> c" "i \<noteq> s" by simp_all
    moreover from i(3) cs have "(i - 1) div 2 \<noteq> c" by simp
    from h1 [OF i(1,2) this] i(3) have "f s \<le> f i" by simp
    ultimately show ?thesis using ps cs by simp
  qed
  ultimately show ?thesis by (simp add: hole_down_def)
qed

lemma heap_keys_root: "heap_keys f n \<Longrightarrow> i < n \<Longrightarrow> f 0 \<le> f i"
proof (induction i rule: less_induct)
  case (less i)
  show ?case
  proof (cases "i = 0")
    case True
    then show ?thesis by simp
  next
    case False
    then have i: "0 < i" by simp
    then have p: "(i - 1) div 2 < i" by (rule parent_less)
    with less.prems have "(i - 1) div 2 < n" by simp
    from less.IH [OF p less.prems(1) this] have "f 0 \<le> f ((i - 1) div 2)" .
    also from less.prems i have "f ((i - 1) div 2) \<le> f i" by (simp add: heap_keys_def)
    finally show ?thesis .
  qed
qed

lemma defaultCompare_ge:
  "a \<noteq> NaN \<Longrightarrow> b \<noteq> NaN \<Longrightarrow> js_ge (defaultCompare a b) (Fin 0) \<Longrightarrow> rank b \<le> rank a"
  by (cases a; cases b; simp add: defaultCompare_def js_sub_def js_ge_def less_eq_prod_def)

lemma defaultCompare_not_ge:
  "a \<noteq> NaN \<Longrightarrow> b \<noteq> NaN \<Longrightarrow> \<not> js_ge (defaultCompare a b) (Fin 0) \<Longrightarrow> rank a \<le> rank b"
  by (cases a; cases b; simp add: defaultCompare_def js_sub_def js_ge_def less_eq_prod_def)

lemma defaultCompare_lt:
  "a \<noteq> NaN \<Longrightarrow> b \<noteq> NaN \<Longrightarrow> js_lt (defaultCompare a b) (Fin 0) \<longleftrightarrow> rank a < rank b"
  by (cases a; cases b; simp add: defaultCompare_def js_sub_def less_prod_def)

lemma keyOf_swap:
  "c < length its \<Longrightarrow> p < length its \<Longrightarrow>
   keyOf (its[c := its ! p, p := its ! c]) = (keyOf its)(c := keyOf its p, p := keyOf its c)"
  by (rule ext) (simp add: keyOf_def nth_list_update)

lemma numeric_swap:
  "c < length its \<Longrightarrow> p < length its \<Longrightarrow> numeric its \<Longrightarrow>
   numeric (its[c := its ! p, p := its ! c])"
  using mset_swap [of p its c, THEN arg_cong, of set_mset]
  by (simp add: numeric_def)

lemma numeric_nth: "numeric its \<Longrightarrow> i < length its \<Longrightarrow> priority (its ! i) \<noteq> NaN"
  by (simp add: numeric_def)

lemma length_heapifyUp: "length (heapifyUp cmp its c) = length its"
proof (induction cmp its c rule: heapifyUp.induct)
  case (1 cmp its current)
  show ?case
    using "1.IH" [OF _ refl]
    by (subst heapifyUp.simps) (auto simp: Let_def)
qed

lemma mset_heapifyUp: "c < length its \<Longrightarrow> mset (heapifyUp cmp its c) = mset its"
proof (induction cmp its c rule: heapifyUp.induct)
  case (1 cmp its current)
  show ?case
  proof (cases "0 < current \<and>
      \<not> js_ge (cmp (priority (its ! current)) (priority (its ! ((current - 1) div 2)))) (Fin 0)")
    case False
    then show ?thesis by (subst heapifyUp.simps) (auto simp: Let_def)
  next
    case True
    then have p: "(current - 1) div 2 < current" using parent_less [of current] by simp
    with "1.prems" have pl: "(current - 1) div 2 < length its" by simp
    have "heapifyUp cmp its current =
        heapifyUp cmp (its[current := its ! ((current - 1) div 2),
                           (current - 1) div 2 := its ! current]) ((current - 1) div 2)"
      using True by (subst heapifyUp.simps) (simp add: Let_def)
    also have "mset \<dots> = mset (its[current := its ! ((current - 1) div 2),
                           (current - 1) div 2 := its ! current])"
      using True pl by (intro "1.IH" [OF _ refl]) simp_all
    also have "\<dots> = mset its"
      using "1.prems" pl by (simp add: mset_swap)
    finally show ?thesis .
  qed
qed

lemma heapifyUp_heap:
  "c < length its \<Longrightarrow> numeric its \<Longrightarrow> hole_up (keyOf its) (length its) c \<Longrightarrow>
   heap_keys (keyOf (heapifyUp defaultCompare its c)) (length its)"
proof (induction defaultCompare its c rule: heapifyUp.induct)
  case (1 its current)
  let ?p = "(current - 1) div 2"
  show ?case
  proof (cases "0 < current")
    case False
    then have "heapifyUp defaultCompare its current = its"
      by (subst heapifyUp.simps) simp
    with False "1.prems"(3) show ?thesis by (auto intro: hole_up_stop)
  next
    case c0: True
    then have p: "?p < current" by (rule parent_less)
    with "1.prems"(1) have pl: "?p < length its" by simp
    from "1.prems"(1,2) pl have nn: "priority (its ! current) \<noteq> NaN" "priority (its ! ?p) \<noteq> NaN"
      by (simp_all add: numeric_nth)
    show ?thesis
    proof (cases "js_ge (defaultCompare (priority (its ! current)) (priority (its ! ?p))) (Fin 0)")
      case True
      then have "heapifyUp defaultCompare its current = its"
        by (subst heapifyUp.simps) (simp add: Let_def)
      moreover from defaultCompare_ge [OF nn True] have "keyOf its ?p \<le> keyOf its current"
        by (simp add: keyOf_def)
      ultimately show ?thesis using "1.prems"(3) by (auto intro: hole_up_stop)
    next
      case False
      let ?its = "its[current := its ! ?p, ?p := its ! current]"
      have eq: "heapifyUp defaultCompare its current = heapifyUp defaultCompare ?its ?p"
        using c0 False by (subst heapifyUp.simps) (simp add: Let_def)
      from defaultCompare_not_ge [OF nn False] have le: "keyOf its current \<le> keyOf its ?p"
        by (simp add: keyOf_def)
      have "hole_up (keyOf ?its) (length ?its) ?p"
        using hole_up_swap [OF "1.prems"(3) c0 "1.prems"(1) le] "1.prems"(1) pl
        by (simp add: keyOf_swap)
      moreover have "numeric ?its" using "1.prems"(1,2) pl by (simp add: numeric_swap)
      ultimately have "heap_keys (keyOf (heapifyUp defaultCompare ?its ?p)) (length ?its)"
        using pl by (intro "1.hyps" [OF c0 refl False]) simp_all
      with eq show ?thesis by simp
    qed
  qed
qed

lemma mset_heapifyDown: "c < length its \<Longrightarrow> mset (heapifyDown cmp its c) = mset its"
proof (induction cmp its c rule: smallestOf_induct)
  case (1 cmp its c)
  show ?case
  proof (cases "smallestOf cmp its c = c")
    case True
    then show ?thesis by (subst heapifyDown_unfold) simp
  next
    case False
    with smallestOf_range [of cmp its c] have s: "smallestOf cmp its c < length its" by auto
    have "mset (heapifyDown cmp its c) =
        mset (its[c := its ! smallestOf cmp its c, smallestOf cmp its c := its ! c])"
      using False s "1.IH" by (subst heapifyDown_unfold) simp
    also have "\<dots> = mset its" using s "1.prems" by (simp add: mset_swap)
    finally show ?thesis .
  qed
qed

lemma smallestOf_default:
  assumes "numeric its" "c < length its"
  shows "smallestOf defaultCompare its c =
     (if 2 * c + 2 < length its \<and>
         keyOf its (2 * c + 2) <
           keyOf its (if 2 * c + 1 < length its \<and> keyOf its (2 * c + 1) < keyOf its c
                      then 2 * c + 1 else c)
      then 2 * c + 2
      else (if 2 * c + 1 < length its \<and> keyOf its (2 * c + 1) < keyOf its c
            then 2 * c + 1 else c))"
proof -
  have nc: "priority (its ! c) \<noteq> NaN" using assms by (rule numeric_nth)
  have l: "js_lt (defaultCompare (priority (its ! (2 * c + 1))) (priority (its ! c))) (Fin 0)
      \<longleftrightarrow> keyOf its (2 * c + 1) < keyOf its c" if "2 * c + 1 < length its"
    using numeric_nth [OF assms(1) that] nc by (simp add: defaultCompare_lt keyOf_def)
  have r: "js_lt (defaultCompare (priority (its ! (2 * c + 2))) (priority (its ! j))) (Fin 0)
      \<longleftrightarrow> keyOf its (2 * c + 2) < keyOf its j" if "2 * c + 2 < length its" "j < length its" for j
    using numeric_nth [OF assms(1) that(1)] numeric_nth [OF assms(1) that(2)]
    by (simp add: defaultCompare_lt keyOf_def)
  show ?thesis
  proof (cases "2 * c + 1 < length its")
    case False
    then show ?thesis by (simp add: smallestOf_def Let_def)
  next
    case True
    show ?thesis
    proof (cases "2 * c + 2 < length its")
      case False
      with True l show ?thesis by (simp add: smallestOf_def Let_def)
    next
      case r2: True
      have "2 * c + 1 + 1 = 2 * c + 2" by simp
      then show ?thesis
        unfolding smallestOf_def Let_def
        using True r2 l [OF True] r [OF r2 True] r [OF r2 assms(2)] by (simp del: One_nat_def)
    qed
  qed
qed

lemma smallestOf_stop:
  assumes "numeric its" "c < length its" "smallestOf defaultCompare its c = c"
  shows "(2 * c + 1 < length its \<longrightarrow> keyOf its c \<le> keyOf its (2 * c + 1)) \<and>
         (2 * c + 2 < length its \<longrightarrow> keyOf its c \<le> keyOf its (2 * c + 2))"
  using assms(3) unfolding smallestOf_default [OF assms(1,2)]
  by (auto split: if_splits)

lemma smallestOf_least:
  assumes "numeric its" "c < length its" "smallestOf defaultCompare its c \<noteq> c"
  shows "keyOf its (smallestOf defaultCompare its c) \<le> keyOf its c \<and>
         (2 * c + 1 < length its \<longrightarrow>
            keyOf its (smallestOf defaultCompare its c) \<le> keyOf its (2 * c + 1)) \<and>
         (2 * c + 2 < length its \<longrightarrow>
            keyOf its (smallestOf defaultCompare its c) \<le> keyOf its (2 * c + 2))"
  using assms(3) unfolding smallestOf_default [OF assms(1,2)]
  by (auto split: if_splits)

lemma heapifyDown_heap:
  "c < length its \<Longrightarrow> numeric its \<Longrightarrow> hole_down (keyOf its) (length its) c \<Longrightarrow>
   heap_keys (keyOf (heapifyDown defaultCompare its c)) (length its)"
proof (induction defaultCompare its c rule: smallestOf_induct)
  case (1 its c)
  let ?s = "smallestOf defaultCompare its c"
  show ?case
  proof (cases "?s = c")
    case True
    then have "heapifyDown defaultCompare its c = its" by (subst heapifyDown_unfold) simp
    moreover from smallestOf_stop [OF "1.prems"(2,1) True] "1.prems"(3)
    have "heap_keys (keyOf its) (length its)" by (auto intro: hole_down_stop)
    ultimately show ?thesis by simp
  next
    case False
    let ?its = "its[c := its ! ?s, ?s := its ! c]"
    from False smallestOf_range [of defaultCompare its c]
    have s: "?s = 2 * c + 1 \<or> ?s = 2 * c + 2" "?s < length its" by auto
    from smallestOf_least [OF "1.prems"(2,1) False]
    have le: "keyOf its ?s \<le> keyOf its c"
      and sib: "\<And>i. i = 2 * c + 1 \<or> i = 2 * c + 2 \<Longrightarrow> i < length its \<Longrightarrow> keyOf its ?s \<le> keyOf its i"
      by auto
    have "hole_down (keyOf ?its) (length ?its) ?s"
      using hole_down_swap [OF "1.prems"(3) s le sib] "1.prems"(1) s(2)
      by (simp add: keyOf_swap)
    moreover have "numeric ?its" using "1.prems"(1,2) s(2) by (simp add: numeric_swap)
    ultimately have "heap_keys (keyOf (heapifyDown defaultCompare ?its ?s)) (length ?its)"
      using s(2) by (intro "1.hyps" [OF False]) simp_all
    moreover have "heapifyDown defaultCompare its c = heapifyDown defaultCompare ?its ?s"
      using False by (subst heapifyDown_unfold) simp
    ultimately show ?thesis by simp
  qed
qed

lemma numeric_mset: "mset xs = mset ys \<Longrightarrow> numeric xs = numeric ys"
  by (auto simp: numeric_def dest: mset_eq_setD)

lemma hole_up_append:
  assumes "heap_keys (keyOf its) (length its)"
  shows "hole_up (keyOf (its @ [e])) (length (its @ [e])) (length its)"
  unfolding hole_up_def
proof (intro conjI allI impI)
  fix i assume i: "0 < i \<and> i < length (its @ [e]) \<and> i \<noteq> length its"
  then have il: "i < length its" by simp
  moreover from i have "(i - 1) div 2 < i" using parent_less [of i] by simp
  ultimately show "keyOf (its @ [e]) ((i - 1) div 2) \<le> keyOf (its @ [e]) i"
    using assms i by (simp add: keyOf_def nth_append heap_keys_def)
next
  fix i assume i: "0 < i \<and> i < length (its @ [e]) \<and> (i - 1) div 2 = length its \<and> 0 < length its"
  then have "(i - 1) div 2 < i" using parent_less [of i] by simp
  with i have False by simp
  then show "keyOf (its @ [e]) ((length its - 1) div 2) \<le> keyOf (its @ [e]) i" ..
qed

lemma enqueue_inv:
  assumes "queue_inv q" "p \<noteq> NaN"
  shows "queue_inv (enqueue a p q)"
    and "mset (items (enqueue a p q)) = add_mset \<lparr>item = a, priority = p\<rparr> (mset (items q))"
proof -
  let ?its = "items q @ [\<lparr>item = a, priority = p\<rparr>]"
  have c: "length ?its - 1 = length (items q)" "length (items q) < length ?its" by simp_all
  have its: "items (enqueue a p q) = heapifyUp defaultCompare ?its (length (items q))"
    using assms(1) by (simp add: enqueue_def queue_inv_def Let_def)
  show m: "mset (items (enqueue a p q)) = add_mset \<lparr>item = a, priority = p\<rparr> (mset (items q))"
    unfolding its using mset_heapifyUp [OF c(2), of defaultCompare] by simp
  have num: "numeric ?its" using assms by (simp add: queue_inv_def numeric_def)
  have "hole_up (keyOf ?its) (length ?its) (length (items q))"
    using assms(1) by (intro hole_up_append) (simp add: queue_inv_def)
  from heapifyUp_heap [OF c(2) num this]
  have "heap_keys (keyOf (items (enqueue a p q))) (length (items (enqueue a p q)))"
    by (simp add: its length_heapifyUp)
  moreover have "numeric (items (enqueue a p q))"
    using num numeric_mset [of "items (enqueue a p q)" ?its] m by simp
  moreover have "compare (enqueue a p q) = defaultCompare"
    using assms(1) by (simp add: enqueue_def queue_inv_def Let_def)
  ultimately show "queue_inv (enqueue a p q)" by (simp add: queue_inv_def)
qed

lemma hole_down_root:
  assumes "heap_keys (keyOf its) (length its)" "2 \<le> length its"
  shows "hole_down (keyOf ((butlast its)[0 := last its])) (length ((butlast its)[0 := last its])) 0"
  unfolding hole_down_def
proof (intro conjI allI impI)
  fix i assume i: "0 < i \<and> i < length ((butlast its)[0 := last its]) \<and> (i - 1) div 2 \<noteq> 0"
  then have il: "i < length its - 1" by simp
  moreover from i have "(i - 1) div 2 < i" using parent_less [of i] by simp
  ultimately show "keyOf ((butlast its)[0 := last its]) ((i - 1) div 2) \<le>
      keyOf ((butlast its)[0 := last its]) i"
    using assms i by (simp add: keyOf_def nth_butlast heap_keys_def)
qed simp

lemma mset_remove_root:
  assumes "2 \<le> length its"
  shows "mset ((butlast its)[0 := last its]) = mset its - {#its ! 0#}"
proof -
  from assms obtain a ys where its: "its = a # ys" "ys \<noteq> []" by (cases its; force)
  then have "ys = butlast ys @ [last ys]" by simp
  then have "mset ys = add_mset (last ys) (mset (butlast ys))"
    by (metis mset_append mset.simps(2) mset.simps(1) union_mset_add_mset_right add.right_neutral)
  with its show ?thesis by simp
qed

lemma dequeue_inv:
  assumes "queue_inv q" "items q \<noteq> []"
  shows "fst (dequeue q) = Some (item (items q ! 0))"
    and "queue_inv (snd (dequeue q))"
    and "mset (items (snd (dequeue q))) = mset (items q) - {#items q ! 0#}"
proof -
  let ?its = "items q"
  show "fst (dequeue q) = Some (item (items q ! 0))"
    using assms(2) by (simp add: dequeue_def Let_def)
  show "queue_inv (snd (dequeue q))"
    and "mset (items (snd (dequeue q))) = mset (items q) - {#items q ! 0#}"
  proof -
    have "0 < length ?its" using assms(2) by simp
    then have "length ?its = 1 \<or> 2 \<le> length ?its" by linarith
    then consider "length ?its = 1" | "2 \<le> length ?its" by blast
    then have "queue_inv (snd (dequeue q)) \<and>
        mset (items (snd (dequeue q))) = mset (items q) - {#items q ! 0#}"
    proof cases
      case 1
      then obtain a where a: "?its = [a]" by (cases ?its) auto
      with assms(1) show ?thesis
        by (simp add: dequeue_def Let_def queue_inv_def numeric_def heap_keys_def)
    next
      case 2
      let ?new = "(butlast ?its)[0 := last ?its]"
      have ne: "length ?its \<noteq> 1" using 2 by simp
      have its': "items (snd (dequeue q)) = heapifyDown defaultCompare ?new 0"
        using ne assms by (simp add: dequeue_def Let_def queue_inv_def)
      have l: "0 < length ?new" using 2 by simp
      have m0: "mset ?new = mset ?its - {#?its ! 0#}" using 2 by (rule mset_remove_root)
      have "set ?new \<subseteq> set ?its"
        using m0 by (metis in_diffD set_mset_mset subsetI)
      with assms(1) have num: "numeric ?new" by (auto simp: queue_inv_def numeric_def)
      have "hole_down (keyOf ?new) (length ?new) 0"
        using assms(1) 2 by (intro hole_down_root) (simp_all add: queue_inv_def)
      from heapifyDown_heap [OF l num this]
      have h: "heap_keys (keyOf (items (snd (dequeue q)))) (length (items (snd (dequeue q))))"
        by (simp add: its' length_heapifyDown)
      have m: "mset (items (snd (dequeue q))) = mset ?its - {#?its ! 0#}"
        unfolding its' using mset_heapifyDown [OF l, of defaultCompare] m0 by simp
      have "mset (items (snd (dequeue q))) = mset ?new"
        unfolding its' using mset_heapifyDown [OF l, of defaultCompare] by simp
      with num numeric_mset [of "items (snd (dequeue q))" ?new]
      have "numeric (items (snd (dequeue q)))" by simp
      moreover have "compare (snd (dequeue q)) = defaultCompare"
        using ne assms by (simp add: dequeue_def Let_def queue_inv_def)
      ultimately show ?thesis using h m by (simp add: queue_inv_def)
    qed
    then show "queue_inv (snd (dequeue q))"
      and "mset (items (snd (dequeue q))) = mset (items q) - {#items q ! 0#}" by simp_all
  qed
qed

lemma enqueueAll_inv:
  "queue_inv q \<Longrightarrow> \<forall>x\<in>set xs. snd x \<noteq> NaN \<Longrightarrow>
   queue_inv (enqueueAll xs q) \<and>
   mset (items (enqueueAll xs q)) =
     mset (items q) + mset (map (\<lambda>x. \<lparr>item = fst x, priority = snd x\<rparr>) xs)"
proof (induction xs arbitrary: q)
  case Nil
  then show ?case by (simp add: enqueueAll_def)
next
  case (Cons x xs)
  obtain a p where x: "x = (a, p)" by (cases x)
  with Cons.prems have p: "p \<noteq> NaN" by simp
  from enqueue_inv [OF Cons.prems(1) p, of a]
  have 1: "queue_inv (enqueue a p q)"
    and 2: "mset (items (enqueue a p q)) = add_mset \<lparr>item = a, priority = p\<rparr> (mset (items q))"
    by simp_all
  from Cons.IH [OF 1] Cons.prems(2)
  have "queue_inv (enqueueAll xs (enqueue a p q)) \<and>
    mset (items (enqueueAll xs (enqueue a p q))) =
      mset (items (enqueue a p q)) + mset (map (\<lambda>x. \<lparr>item = fst x, priority = snd x\<rparr>) xs)"
    by simp
  moreover have "enqueueAll (x # xs) q = enqueueAll xs (enqueue a p q)"
    by (simp add: enqueueAll_def x)
  ultimately show ?case by (simp add: 2 x)
qed

lemma queue_inv_new: "queue_inv (PriorityQueue_new defaultCompare)"
  by (simp add: queue_inv_def PriorityQueue_new_def numeric_def heap_keys_def)

lemma dequeueAll_sorted:
  "queue_inv q \<Longrightarrow>
   \<exists>es. mset es = mset (items q) \<and> sorted (map (\<lambda>e. rank (priority e)) es) \<and>
        dequeueAll q = map item es"
proof (induction "length (items q)" arbitrary: q rule: less_induct)
  case less
  show ?case
  proof (cases "items q = []")
    case True
    then have "dequeueAll q = []" by (subst dequeueAll.simps) (simp add: isEmpty_def)
    with True show ?thesis by simp
  next
    case False
    let ?r = "items q ! 0"
    obtain res q' where deq': "dequeue q = (res, q')" by (cases "dequeue q")
    let ?q = "q'"
    from dequeue_inv [OF less.prems False] deq'
    have d: "res = Some (item ?r)" "queue_inv ?q"
      "mset (items ?q) = mset (items q) - {#?r#}" by simp_all
    from False have rin: "?r \<in># mset (items q)" by simp
    from False have pos: "0 < length (items q)" by simp
    have "size (mset (items ?q)) = size (mset (items q)) - 1"
      unfolding d(3) using rin by (rule size_Diff_singleton)
    then have "length (items ?q) = length (items q) - 1" by simp
    with pos have "length (items ?q) < length (items q)" by linarith
    from less.hyps [OF this d(2)] obtain es where es: "mset es = mset (items ?q)"
      "sorted (map (\<lambda>e. rank (priority e)) es)" "dequeueAll ?q = map item es" by blast
    have deq: "dequeue q = (Some (item ?r), ?q)" using d(1) deq' by simp
    have all: "dequeueAll q = item ?r # dequeueAll ?q"
      using False by (subst dequeueAll.simps) (simp add: isEmpty_def deq)
    have "rank (priority ?r) \<le> rank (priority e)" if "e \<in> set es" for e
    proof -
      from that es(1) have "e \<in># mset (items q) - {#?r#}" by (metis d(3) set_mset_mset)
      then have "e \<in> set (items q)" by (metis in_diffD set_mset_mset)
      then obtain i where i: "i < length (items q)" "items q ! i = e" by (auto simp: in_set_conv_nth)
      from less.prems have "heap_keys (keyOf (items q)) (length (items q))"
        by (simp add: queue_inv_def)
      from heap_keys_root [OF this i(1)] i(2) show ?thesis by (simp add: keyOf_def)
    qed
    then have "sorted (map (\<lambda>e. rank (priority e)) (?r # es))" using es(2) by auto
    moreover have "mset (?r # es) = mset (items q)" using es(1) d(3) rin by simp
    moreover have "dequeueAll q = map item (?r # es)" using all es(3) by simp
    ultimately show ?thesis by blast
  qed
qed

lemma sorted_rank_js_le:
  "\<forall>a\<in>set ps. a \<noteq> NaN \<Longrightarrow> sorted (map rank ps) \<Longrightarrow> sorted_wrt js_le ps"
  by (induction ps) (auto simp: js_le_rank)

text \<open>
  Claim C1. For every finite sequence of (item, priority) pairs whose priorities are not NaN,
  enqueued in the given order into a queue with the default comparator, dequeuing until the
  queue is empty emits the items of the pairs in an order in which the priorities are
  non-decreasing (\<open>ys\<close> is the sequence of pairs in the order emitted). After
  \<open>(A,5)\<close>, \<open>(B,1)\<close>, \<open>(C,3)\<close> the order is \<open>B\<close>, \<open>C\<close>, \<open>A\<close>.
\<close>

theorem dequeue_order_nondecreasing:
  "((\<forall>x\<in>set xs. snd x \<noteq> NaN) \<longrightarrow>
      (\<exists>ys. mset ys = mset xs \<and> sorted_wrt js_le (map snd ys) \<and>
            dequeueAll (enqueueAll xs (PriorityQueue_new defaultCompare)) = map fst ys)) \<and>
   dequeueAll (enqueueAll [(''A'', Fin 5), (''B'', Fin 1), (''C'', Fin 3)]
     (PriorityQueue_new defaultCompare)) = [''B'', ''C'', ''A'']"
proof (intro conjI impI)
  assume num: "\<forall>x\<in>set xs. snd x \<noteq> NaN"
  let ?q = "enqueueAll xs (PriorityQueue_new defaultCompare)"
  from enqueueAll_inv [OF queue_inv_new num]
  have inv: "queue_inv ?q"
    and m: "mset (items ?q) = mset (map (\<lambda>x. \<lparr>item = fst x, priority = snd x\<rparr>) xs)"
    by (simp_all add: PriorityQueue_new_def)
  from dequeueAll_sorted [OF inv] obtain es where es: "mset es = mset (items ?q)"
    "sorted (map (\<lambda>e. rank (priority e)) es)" "dequeueAll ?q = map item es" by blast
  let ?ys = "map (\<lambda>e. (item e, priority e)) es"
  have "mset ?ys = image_mset (\<lambda>e. (item e, priority e)) (mset es)" by simp
  also have "\<dots> = image_mset (\<lambda>e. (item e, priority e))
      (image_mset (\<lambda>x. \<lparr>item = fst x, priority = snd x\<rparr>) (mset xs))"
    by (simp add: es(1) m)
  also have "\<dots> = mset xs" by (simp add: image_mset.compositionality comp_def)
  finally have 1: "mset ?ys = mset xs" .
  then have "set ?ys = set xs" by (rule mset_eq_setD)
  with num have "\<forall>y\<in>set ?ys. snd y \<noteq> NaN" by blast
  then have "\<forall>a\<in>set (map snd ?ys). a \<noteq> NaN" by simp
  moreover have "sorted (map rank (map snd ?ys))" using es(2) by (simp add: comp_def)
  ultimately have 2: "sorted_wrt js_le (map snd ?ys)" by (rule sorted_rank_js_le)
  have 3: "dequeueAll ?q = map fst ?ys" using es(3) by (simp add: comp_def)
  from 1 2 3 show "\<exists>ys. mset ys = mset xs \<and> sorted_wrt js_le (map snd ys) \<and>
      dequeueAll ?q = map fst ys" by blast
next
  show "dequeueAll (enqueueAll [(''A'', Fin 5), (''B'', Fin 1), (''C'', Fin 3)]
     (PriorityQueue_new defaultCompare)) = [''B'', ''C'', ''A'']"
    by (simp add: enqueueAll_def enqueue_def dequeue_def PriorityQueue_new_def isEmpty_def
        heapifyUp.simps heapifyDown.simps dequeueAll.simps defaultCompare_def js_sub_def
        js_ge_def Let_def)
qed

theorem dequeue_order_nondecreasing_witness:
  "\<exists>ys. mset ys = mset [(''a'', Fin 2), (''b'', PosInf), (''c'', Fin 2), (''d'', NegInf)] \<and>
        sorted_wrt js_le (map snd ys) \<and>
        dequeueAll (enqueueAll [(''a'', Fin 2), (''b'', PosInf), (''c'', Fin 2), (''d'', NegInf)]
          (PriorityQueue_new defaultCompare)) = map fst ys"
  using dequeue_order_nondecreasing
    [of "[(''a'', Fin 2), (''b'', PosInf), (''c'', Fin 2), (''d'', NegInf)]"]
  by simp

end
